theory Spec2Isabelle
  imports
    Complex_Main
    "HOL-Library.Sublist"
    "HOL-Library.Char_ord"
    "HOL-Library.List_Lexorder"
    "HOL-Library.Product_Lexorder"
begin

section \<open>Strings\<close>

text \<open>
  A Python \<open>str\<close> is modelled as a \<open>string\<close>, one \<open>char\<close> per code point; the
  model therefore covers the code points below 256. The character classes below are the
  ones Python's \<open>str\<close> methods and the \<open>re\<close> module (Unicode patterns) use, restricted
  to that range.
\<close>

definition is_space :: "char \<Rightarrow> bool" where
  \<comment> \<open>\<open>str.isspace\<close> and the regex class \<open>\s\<close>\<close>
  "is_space c \<longleftrightarrow>
     c \<in> set [CHR 0x09, CHR 0x0A, CHR 0x0B, CHR 0x0C, CHR 0x0D, CHR 0x1C, CHR 0x1D,
               CHR 0x1E, CHR 0x1F, CHR 0x20, CHR 0x85, CHR 0xA0]"

definition is_digit :: "char \<Rightarrow> bool" where
  \<comment> \<open>the regex class \<open>\d\<close>\<close>
  "is_digit c \<longleftrightarrow> CHR ''0'' \<le> c \<and> c \<le> CHR ''9''"

definition is_ascii_alnum :: "char \<Rightarrow> bool" where
  \<comment> \<open>the regex class \<open>[a-zA-Z0-9]\<close>\<close>
  "is_ascii_alnum c \<longleftrightarrow>
     (CHR ''a'' \<le> c \<and> c \<le> CHR ''z'') \<or> (CHR ''A'' \<le> c \<and> c \<le> CHR ''Z'') \<or>
     (CHR ''0'' \<le> c \<and> c \<le> CHR ''9'')"

definition is_word :: "char \<Rightarrow> bool" where
  \<comment> \<open>the regex class \<open>\w\<close>: alphanumeric (\<open>str.isalnum\<close>) or underscore\<close>
  "is_word c \<longleftrightarrow>
     is_ascii_alnum c \<or> c = CHR ''_'' \<or>
     c \<in> set [CHR 0xAA, CHR 0xB2, CHR 0xB3, CHR 0xB5, CHR 0xB9, CHR 0xBA, CHR 0xBC,
               CHR 0xBD, CHR 0xBE] \<or>
     (CHR 0xC0 \<le> c \<and> c \<noteq> CHR 0xD7 \<and> c \<noteq> CHR 0xF7)"

definition lower_char :: "char \<Rightarrow> char" where
  \<comment> \<open>lower case of an ASCII letter; other characters below 128 are unchanged\<close>
  "lower_char c =
     (if CHR ''A'' \<le> c \<and> c \<le> CHR ''Z'' then char_of (of_char c + (32::nat)) else c)"

definition upper_char :: "char \<Rightarrow> char" where
  \<comment> \<open>upper case of an ASCII letter. No other code point has an upper case that contains
      \<open>T\<close>, \<open>B\<close> or \<open>A\<close> next to nothing but such letters, so the comparisons
      \<open>x.upper() == "TBA"\<close> of the source agree with this map\<close>
  "upper_char c =
     (if CHR ''a'' \<le> c \<and> c \<le> CHR ''z'' then char_of (of_char c - (32::nat)) else c)"

definition lower :: "string \<Rightarrow> string" where
  "lower s = map lower_char s"

definition upper :: "string \<Rightarrow> string" where
  "upper s = map upper_char s"

definition strip_by :: "(char \<Rightarrow> bool) \<Rightarrow> string \<Rightarrow> string" where
  \<comment> \<open>\<open>s.strip(chars)\<close>: drop the characters of the class at both ends\<close>
  "strip_by P s = rev (dropWhile P (rev (dropWhile P s)))"

definition strip :: "string \<Rightarrow> string" where
  \<comment> \<open>\<open>s.strip()\<close>\<close>
  "strip s = strip_by is_space s"

function sub_runs :: "(char \<Rightarrow> bool) \<Rightarrow> string \<Rightarrow> string \<Rightarrow> string" where
  \<comment> \<open>\<open>re.sub(r"[class]+", repl, s)\<close>: every maximal run of the class becomes \<open>repl\<close>\<close>
  "sub_runs P repl [] = []"
| "sub_runs P repl (c # cs) =
     (if P c then repl @ sub_runs P repl (dropWhile P cs) else c # sub_runs P repl cs)"
  by pat_completeness auto
termination
  by (relation "measure (\<lambda>(P, repl, s). length s)")
     (auto simp: le_imp_less_Suc length_dropWhile_le)

definition norm_spaces :: "string \<Rightarrow> string" where
  \<comment> \<open>\<open>re.sub(r"\s+", " ", (s or "").strip())\<close>\<close>
  "norm_spaces s = sub_runs is_space '' '' (strip s)"

fun str_contains :: "string \<Rightarrow> string \<Rightarrow> bool" where
  \<comment> \<open>\<open>sub in s\<close>\<close>
  "str_contains sub [] = (sub = [])"
| "str_contains sub (c # cs) = (prefix sub (c # cs) \<or> str_contains sub cs)"

fun split_once :: "string \<Rightarrow> string \<Rightarrow> string \<times> string" where
  \<comment> \<open>\<open>s.split(sep, 1)\<close> for a separator that occurs in \<open>s\<close>: the parts before and after
      its first occurrence\<close>
  "split_once sep [] = ([], [])"
| "split_once sep (c # cs) =
     (if prefix sep (c # cs) then ([], drop (length sep) (c # cs))
      else (case split_once sep cs of (l, r) \<Rightarrow> (c # l, r)))"

fun split_char :: "char \<Rightarrow> string \<Rightarrow> string list" where
  \<comment> \<open>\<open>s.split(sep)\<close> for a one-character separator\<close>
  "split_char sep [] = [[]]"
| "split_char sep (c # cs) =
     (if c = sep then [] # split_char sep cs
      else (case split_char sep cs of [] \<Rightarrow> [[c]] | w # ws \<Rightarrow> (c # w) # ws))"

function str_replace :: "string \<Rightarrow> string \<Rightarrow> string \<Rightarrow> string" where
  \<comment> \<open>\<open>s.replace(old, new)\<close> for a non-empty \<open>old\<close>: the occurrences are replaced from
      left to right, without overlap\<close>
  "str_replace old new s =
     (if old = [] \<or> s = [] then s
      else if prefix old s then new @ str_replace old new (drop (length old) s)
      else hd s # str_replace old new (tl s))"
  by pat_completeness auto
termination
  by (relation "measure (\<lambda>(old, new, s). length s)") auto

declare str_replace.simps [simp del]

definition nfkd_ascii :: "char \<Rightarrow> string" where
  \<comment> \<open>one code point through \<open>unicodedata.normalize("NFKD", _).encode("ascii", "ignore")\<close>:
      the ASCII characters of its compatibility decomposition\<close>
  "nfkd_ascii c =
     (if c < CHR 0x80 then [c]
      else if c \<in> set [CHR 0xA0, CHR 0xA8, CHR 0xAF, CHR 0xB4, CHR 0xB8] then '' ''
      else if c = CHR 0xB2 then ''2'' else if c = CHR 0xB3 then ''3''
      else if c = CHR 0xB9 then ''1''
      else if c = CHR 0xBC then ''14'' else if c = CHR 0xBD then ''12''
      else if c = CHR 0xBE then ''34''
      else if CHR 0xC0 \<le> c \<and> c \<le> CHR 0xC5 then ''A''
      else if c = CHR 0xC7 then ''C''
      else if CHR 0xC8 \<le> c \<and> c \<le> CHR 0xCB then ''E''
      else if CHR 0xCC \<le> c \<and> c \<le> CHR 0xCF then ''I''
      else if c = CHR 0xD1 then ''N''
      else if CHR 0xD2 \<le> c \<and> c \<le> CHR 0xD6 then ''O''
      else if CHR 0xD9 \<le> c \<and> c \<le> CHR 0xDC then ''U''
      else if c = CHR 0xDD then ''Y''
      else if c = CHR 0xAA \<or> (CHR 0xE0 \<le> c \<and> c \<le> CHR 0xE5) then ''a''
      else if c = CHR 0xE7 then ''c''
      else if CHR 0xE8 \<le> c \<and> c \<le> CHR 0xEB then ''e''
      else if CHR 0xEC \<le> c \<and> c \<le> CHR 0xEF then ''i''
      else if c = CHR 0xF1 then ''n''
      else if c = CHR 0xBA \<or> (CHR 0xF2 \<le> c \<and> c \<le> CHR 0xF6) then ''o''
      else if CHR 0xF9 \<le> c \<and> c \<le> CHR 0xFC then ''u''
      else if c = CHR 0xFD \<or> c = CHR 0xFF then ''y''
      else [])"

definition slug :: "string \<Rightarrow> string" where
  \<comment> \<open>\<open>re.sub(r"[^a-zA-Z0-9]+", "-", ascii(s)).strip("-").lower()\<close>\<close>
  "slug s =
     lower (strip_by (\<lambda>c. c = CHR ''-'')
       (sub_runs (\<lambda>c. \<not> is_ascii_alnum c) ''-'' (concat (map nfkd_ascii s))))"

section \<open>Calendar dates\<close>

text \<open>
  A \<open>datetime.date\<close> is modelled by its proleptic Gregorian ordinal (\<open>date.toordinal()\<close>,
  1 for 0001-01-01): dates compare as their ordinals do and the difference of two dates is
  the difference of the ordinals in days. The conversions between an ordinal and year,
  month and day are those of the \<open>datetime\<close> module.
\<close>

type_synonym date = int

definition is_leap :: "int \<Rightarrow> bool" where
  "is_leap y \<longleftrightarrow> y mod 4 = 0 \<and> (y mod 100 \<noteq> 0 \<or> y mod 400 = 0)"

definition days_before_year :: "int \<Rightarrow> int" where
  "days_before_year year =
     (let y = year - 1 in y * 365 + y div 4 - y div 100 + y div 400)"

definition DAYS_BEFORE_MONTH :: "int list" where
  "DAYS_BEFORE_MONTH = [-1, 0, 31, 59, 90, 120, 151, 181, 212, 243, 273, 304, 334]"

definition DAYS_IN_MONTH :: "int list" where
  "DAYS_IN_MONTH = [-1, 31, 28, 31, 30, 31, 30, 31, 31, 30, 31, 30, 31]"

definition days_before_month :: "int \<Rightarrow> int \<Rightarrow> int" where
  \<comment> \<open>for a month from 1 to 12\<close>
  "days_before_month year month =
     DAYS_BEFORE_MONTH ! nat month + (if month > 2 \<and> is_leap year then 1 else 0)"

definition ymd2ord :: "int \<Rightarrow> int \<Rightarrow> int \<Rightarrow> date" where
  \<comment> \<open>the ordinal of \<open>date(year, month, day)\<close>, for a year, month and day that the
      constructor accepts\<close>
  "ymd2ord year month day = days_before_year year + days_before_month year month + day"

definition ord2ymd :: "date \<Rightarrow> int \<times> int \<times> int" where
  \<comment> \<open>year, month and day of an ordinal; the month computed is always from 1 to 12\<close>
  "ord2ymd ordinal =
     (let n = ordinal - 1;
          n400 = n div 146097; n = n mod 146097;
          n100 = n div 36524; n = n mod 36524;
          n4 = n div 1461; n = n mod 1461;
          n1 = n div 365; n = n mod 365;
          year = n400 * 400 + 1 + n100 * 100 + n4 * 4 + n1
      in if n1 = 4 \<or> n100 = 4 then (year - 1, 12, 31)
         else
           let leapyear = (n1 = 3 \<and> (n4 \<noteq> 24 \<or> n100 = 3));
               month = (n + 50) div 32;
               preceding =
                 DAYS_BEFORE_MONTH ! nat month + (if month > 2 \<and> leapyear then 1 else 0);
               (month, preceding) =
                 (if preceding > n
                  then (month - 1,
                        preceding - (DAYS_IN_MONTH ! nat (month - 1) +
                          (if month - 1 = 2 \<and> leapyear then 1 else 0)))
                  else (month, preceding))
           in (year, month, n - preceding + 1))"

function dec_digits :: "nat \<Rightarrow> string" where
  "dec_digits n =
     (if n < 10 then [''0123456789'' ! n]
      else dec_digits (n div 10) @ [''0123456789'' ! (n mod 10)])"
  by pat_completeness auto
termination
  by (relation "measure id") auto

declare dec_digits.simps [simp del]

definition zero_pad :: "nat \<Rightarrow> int \<Rightarrow> string" where
  \<comment> \<open>the format \<open>%0wd\<close> of a number that is not negative\<close>
  "zero_pad w n =
     (let ds = dec_digits (nat n) in replicate (w - length ds) (CHR ''0'') @ ds)"

definition isoformat :: "date \<Rightarrow> string" where
  \<comment> \<open>\<open>"%04d-%02d-%02d" % (year, month, day)\<close>\<close>
  "isoformat d =
     (case ord2ymd d of (y, m, dd) \<Rightarrow>
        zero_pad 4 y @ ''-'' @ zero_pad 2 m @ ''-'' @ zero_pad 2 dd)"

section \<open>The record\<close>

record Tournament =
  title :: string
  organizer :: string
  start :: date
  end_date :: date
  location :: "string option"
  tour :: "string option"
  source :: string
  source_url :: string

definition start_iso :: "Tournament \<Rightarrow> string" where
  "start_iso t = isoformat (start t)"

definition truthy :: "string option \<Rightarrow> bool" where
  \<comment> \<open>the truth value of an \<open>Optional[str]\<close>: neither \<open>None\<close> nor the empty string\<close>
  "truthy loc = (case loc of None \<Rightarrow> False | Some s \<Rightarrow> s \<noteq> [])"

definition location_precision :: "string option \<Rightarrow> nat" where
  "location_precision loc =
     (if \<not> truthy loc then 0
      else if CHR '','' \<in> set (norm_spaces (the loc)) then 2 else 1)"

section \<open>Location rules\<close>

definition bad_terms :: "string list" where
  \<comment> \<open>the alternatives of \<open>BAD_LOCATION_RE\<close> (\<open>tickets?\<close> written out)\<close>
  "bad_terms =
     [''ical'', ''outlook'', ''export'', ''subscribe'', ''add to'', ''google'', ''calendar'',
      ''share'', ''print'', ''download'', ''tickets'', ''ticket'', ''prize fund'',
      ''more info'', ''read more'', ''countdown'']"

definition is_word_opt :: "char option \<Rightarrow> bool" where
  \<comment> \<open>is there a word character at a position that may be outside the string\<close>
  "is_word_opt c = (case c of None \<Rightarrow> False | Some x \<Rightarrow> is_word x)"

definition next_char :: "string \<Rightarrow> char option" where
  "next_char s = (case s of [] \<Rightarrow> None | c # _ \<Rightarrow> Some c)"

definition term_at :: "char option \<Rightarrow> string \<Rightarrow> string \<Rightarrow> bool" where
  \<comment> \<open>\<open>(?i)\bterm\b\<close> matches at the start of \<open>s\<close>, \<open>prev\<close> being the character before.
      Every term starts and ends with a word character, so \<open>\b\<close> asks for no word
      character on the other side\<close>
  "term_at prev trm s \<longleftrightarrow>
     \<not> is_word_opt prev \<and> length trm \<le> length s \<and>
     lower (take (length trm) s) = trm \<and>
     \<not> is_word_opt (next_char (drop (length trm) s))"

fun bad_location_search :: "char option \<Rightarrow> string \<Rightarrow> bool" where
  \<comment> \<open>\<open>BAD_LOCATION_RE.search(s)\<close> finds a match; \<open>prev\<close> is the character before \<open>s\<close>\<close>
  "bad_location_search prev [] = False"
| "bad_location_search prev (c # cs) =
     (list_ex (\<lambda>trm. term_at prev trm (c # cs)) bad_terms \<or> bad_location_search (Some c) cs)"

definition is_bad_location :: "string option \<Rightarrow> bool" where
  \<comment> \<open>the last test of the source is \<open>s.startswith(("+", "\<bullet>"))\<close>; the bullet is the
      code point 0x2022, which no string of the model holds\<close>
  "is_bad_location loc =
     (if \<not> truthy loc then True
      else let s = norm_spaces (the loc) in
        if s = [] then True
        else if 1 \<le> length s \<and> length s \<le> 6 \<and> list_all is_digit s then True
        else if bad_location_search None s then True
        else if length s > 140 then True
        else if prefix ''+'' s then True
        else False)"

definition normalize_location :: "string option \<Rightarrow> string option" where
  "normalize_location loc =
     (if \<not> truthy loc then None
      else
        let s = norm_spaces (the loc);
            s = str_replace ''Tukey'' ''Turkey'' s
        in
          if str_contains '' / '' s then
            (case split_once '' / '' s of (l, r) \<Rightarrow>
               let left = strip l; right = strip r in
                 if upper left = ''TBA'' \<and> upper right = ''TBA'' then None
                 else if upper left = ''TBA'' then
                   (if upper right = ''TBA'' then None else Some right)
                 else if upper right = ''TBA'' then
                   (if upper left = ''TBA'' then None else Some left)
                 else
                   let s = left @ '', '' @ right in
                     if upper s = ''TBA'' then None
                     else if is_bad_location (Some s) then None else Some s)
          else if upper s = ''TBA'' then None
          else if is_bad_location (Some s) then None else Some s)"

section \<open>Dedup and location cross-fill\<close>

definition choose_better :: "Tournament \<Rightarrow> Tournament \<Rightarrow> Tournament" where
  "choose_better a b =
     (let pa = location_precision (location a);
          pb = location_precision (location b)
      in if pb > pa then b
         else if pa > pb then a
         else if \<not> truthy (location a) \<and> truthy (location b)
           then a\<lparr>location := location b\<rparr>
         else a)"

definition dedup_key :: "Tournament \<Rightarrow> string" where
  \<comment> \<open>\<open>f"{slug(t.title)}|{t.start_iso}"\<close>\<close>
  "dedup_key t = slug (title t) @ ''|'' @ start_iso t"

text \<open>
  The dictionary \<open>seen\<close> keeps its keys in the order of their first insertion, and
  \<open>list(seen.values())\<close> reads the values in that order: it is an association list.
\<close>

fun dict_set :: "('k \<times> 'v) list \<Rightarrow> 'k \<Rightarrow> 'v \<Rightarrow> ('k \<times> 'v) list" where
  \<comment> \<open>\<open>d[k] = v\<close>: an existing key keeps its place, a new key goes last\<close>
  "dict_set [] k v = [(k, v)]"
| "dict_set ((k', v') # kvs) k v =
     (if k' = k then (k', v) # kvs else (k', v') # dict_set kvs k v)"

definition dedup_step :: "Tournament \<Rightarrow> (string \<times> Tournament) list \<Rightarrow> (string \<times> Tournament) list"
  where
  "dedup_step t seen =
     (let key = dedup_key t in
        case map_of seen key of
          None \<Rightarrow> dict_set seen key t
        | Some cur \<Rightarrow> dict_set seen key (choose_better cur t))"

definition dedup :: "Tournament list \<Rightarrow> Tournament list" where
  "dedup tournaments = map snd (fold dedup_step tournaments [])"

fun sub_years :: "char option \<Rightarrow> string \<Rightarrow> string" where
  \<comment> \<open>\<open>re.sub(r"\b20\d{2}\b", " ", s)\<close>, scanning from the left; \<open>prev\<close> is the character
      of the source string before the position\<close>
  "sub_years prev (a # b # c # d # rest) =
     (if a = CHR ''2'' \<and> b = CHR ''0'' \<and> is_digit c \<and> is_digit d \<and>
         \<not> is_word_opt prev \<and> \<not> is_word_opt (next_char rest)
      then CHR '' '' # sub_years (Some d) rest
      else a # sub_years (Some a) (b # c # d # rest))"
| "sub_years prev (a # rest) = a # sub_years (Some a) rest"
| "sub_years prev [] = []"

definition title_tokens :: "string \<Rightarrow> string set" where
  "title_tokens s =
     (let t = sub_years None s;
          toks = filter (\<lambda>x. length x \<ge> 3) (split_char (CHR ''-'') (slug t))
      in set toks)"

text \<open>
  The quotient of the two set sizes is a Python float, compared with the float literal
  \<open>0.28\<close> and with other such quotients. Division and literal are both rounded to the
  nearest double, rounding is monotone, and two distinct quotients of sizes below
  \<open>2 ^ 26\<close> are further apart than the doubles around them, so these comparisons have
  the outcome they have on the exact quotients: the model computes with rationals.
\<close>

definition jaccard :: "string \<Rightarrow> string \<Rightarrow> rat" where
  "jaccard a b =
     (let sa = title_tokens a; sb = title_tokens b in
        if sa = {} \<or> sb = {} then 0
        else of_nat (card (sa \<inter> sb)) / of_nat (card (sa \<union> sb)))"

text \<open>
  The records of the input list are distinct objects; \<open>c is t\<close> compares positions in
  the list, so every record travels with its index. (A list that held one object twice
  would fare no differently: a candidate that is the record \<open>t\<close> itself has the
  precision of \<open>t\<close>, which is below 2, and the next test skips it.)
\<close>

definition by_start_of :: "Tournament list \<Rightarrow> date \<Rightarrow> (nat \<times> Tournament) list option" where
  \<comment> \<open>the dictionary \<open>by_start\<close> built by \<open>setdefault(t.start, []).append(t)\<close>\<close>
  "by_start_of tournaments =
     fold (\<lambda>p m. m(start (snd p) \<mapsto> (case m (start (snd p)) of None \<Rightarrow> [] | Some l \<Rightarrow> l) @ [p]))
       (enumerate 0 tournaments) Map.empty"

fun best_candidate ::
  "nat \<times> Tournament \<Rightarrow> (nat \<times> Tournament) list \<Rightarrow> string option \<times> rat \<Rightarrow> string option \<times> rat"
  where
  \<comment> \<open>the loop over \<open>cands\<close>, on the pair \<open>(best_loc, best_score)\<close>\<close>
  "best_candidate t [] best = best"
| "best_candidate t (c # cands) (best_loc, best_score) =
     (if fst c = fst t then best_candidate t cands (best_loc, best_score)
      else if location_precision (location (snd c)) \<noteq> 2
        then best_candidate t cands (best_loc, best_score)
      else if \<bar>end_date (snd c) - end_date (snd t)\<bar> > 1
        then best_candidate t cands (best_loc, best_score)
      else
        let sim = jaccard (title (snd t)) (title (snd c)) in
          if sim < 28 / 100 then best_candidate t cands (best_loc, best_score)
          else if sim > best_score then best_candidate t cands (location (snd c), sim)
          else best_candidate t cands (best_loc, best_score))"

definition cross_fill_one :: "Tournament list \<Rightarrow> nat \<times> Tournament \<Rightarrow> Tournament" where
  \<comment> \<open>the body of the loop that builds \<open>updated\<close>: the record appended for \<open>t\<close>\<close>
  "cross_fill_one tournaments t =
     (if location_precision (location (snd t)) = 2 then snd t
      else
        let cands = (case by_start_of tournaments (start (snd t)) of None \<Rightarrow> [] | Some l \<Rightarrow> l);
            best_loc = fst (best_candidate t cands (None, 0))
        in if truthy best_loc \<and> best_loc \<noteq> location (snd t)
           then (snd t)\<lparr>location := best_loc\<rparr>
           else snd t)"

definition cross_fill_locations :: "Tournament list \<Rightarrow> Tournament list" where
  "cross_fill_locations tournaments =
     map (cross_fill_one tournaments) (enumerate 0 tournaments)"

section \<open>Conflict detection in the calendar export\<close>

text \<open>
  A row of the export is a dictionary; \<open>build_conflict_set\<close> reads its keys
  \<open>"start"\<close>, \<open>"end"\<close> and \<open>"title"\<close>.
\<close>

record row =
  row_start :: date
  row_end :: date
  row_title :: string

definition sort_key_of :: "nat \<times> row \<Rightarrow> date \<times> date \<times> string" where
  \<comment> \<open>\<open>lambda x: (x[1]["start"], x[1]["end"], x[1]["title"])\<close>\<close>
  "sort_key_of x = (row_start (snd x), row_end (snd x), row_title (snd x))"

fun conflicts_from :: "nat \<times> row \<Rightarrow> (nat \<times> row) list \<Rightarrow> nat set \<Rightarrow> nat set" where
  \<comment> \<open>the inner loop over \<open>j\<close> for one \<open>a = indexed[i]\<close>, on the rest of the sorted list\<close>
  "conflicts_from a [] conflict = conflict"
| "conflicts_from a (b # bs) conflict =
     (if row_start (snd b) > row_end (snd a) then conflict
      else if row_start (snd a) \<le> row_end (snd b) \<and> row_start (snd b) \<le> row_end (snd a)
        then conflicts_from a bs (insert (fst b) (insert (fst a) conflict))
      else conflicts_from a bs conflict)"

fun conflicts_sweep :: "(nat \<times> row) list \<Rightarrow> nat set \<Rightarrow> nat set" where
  \<comment> \<open>the outer loop over \<open>i\<close>\<close>
  "conflicts_sweep [] conflict = conflict"
| "conflicts_sweep (a # rest) conflict = conflicts_sweep rest (conflicts_from a rest conflict)"

definition build_conflict_set :: "row list \<Rightarrow> nat set" where
  "build_conflict_set rows =
     conflicts_sweep (sort_key sort_key_of (enumerate 0 rows)) {}"

section \<open>The dates of a WPA calendar event\<close>

text \<open>
  The value of a \<open>DTSTART\<close> or \<open>DTEND\<close> property is a date or a datetime (here its
  date and the seconds since midnight).
\<close>

datatype ics_dt = IcsDate date | IcsDateTime date nat

datatype py_error = OverflowError

definition ics_dt_to_date :: "ics_dt \<Rightarrow> date" where
  "ics_dt_to_date x = (case x of IcsDateTime d _ \<Rightarrow> d | IcsDate d \<Rightarrow> d)"

definition max_ordinal :: int where
  \<comment> \<open>the ordinal of \<open>date.max\<close>, 9999-12-31\<close>
  "max_ordinal = 3652059"

definition date_minus_days :: "date \<Rightarrow> int \<Rightarrow> py_error + date" where
  \<comment> \<open>\<open>d - timedelta(days=n)\<close>\<close>
  "date_minus_days d n =
     (let ordinal = d - n in
        if 0 < ordinal \<and> ordinal \<le> max_ordinal then Inr ordinal else Inl OverflowError)"

definition is_upcoming_or_ongoing :: "date \<Rightarrow> date \<Rightarrow> date \<Rightarrow> bool" where
  "is_upcoming_or_ongoing start_d end_d from_d \<longleftrightarrow>
     start_d \<ge> from_d \<or> (start_d < from_d \<and> from_d \<le> end_d)"

definition wpa_event_dates :: "date \<Rightarrow> ics_dt \<Rightarrow> ics_dt option \<Rightarrow> py_error + (date \<times> date) option"
  where
  \<comment> \<open>the dates \<open>fetch_wpa_ics\<close> computes for one \<open>VEVENT\<close> with a title: \<open>Inr None\<close>
      when the event is skipped as past, \<open>Inr (Some (start_d, end_d))\<close> when a record
      with these dates is appended\<close>
  "wpa_event_dates from_d dtstart dtend =
     (let start_d = ics_dt_to_date dtstart in
        case (case dtend of None \<Rightarrow> Inr start_d
              | Some e \<Rightarrow> date_minus_days (ics_dt_to_date e) 1) of
          Inl err \<Rightarrow> Inl err
        | Inr end_d \<Rightarrow>
            if \<not> is_upcoming_or_ongoing start_d end_d from_d then Inr None
            else Inr (Some (start_d, end_d)))"

section \<open>Notions used in the properties\<close>

definition same_but_location :: "Tournament \<Rightarrow> Tournament \<Rightarrow> bool" where
  "same_but_location r t \<longleftrightarrow>
     title r = title t \<and> organizer r = organizer t \<and> start r = start t \<and>
     end_date r = end_date t \<and> tour r = tour t \<and> source r = source t \<and>
     source_url r = source_url t"

definition keyed :: "(string \<times> Tournament) list \<Rightarrow> bool" where
  "keyed seen \<longleftrightarrow> distinct (map fst seen) \<and> (\<forall>(k, v) \<in> set seen. dedup_key v = k)"

definition identity_key :: "Tournament \<Rightarrow> string \<times> string" where
  "identity_key t = (slug (title t), isoformat (start t))"

definition qualifies :: "Tournament list \<Rightarrow> nat \<Rightarrow> nat \<Rightarrow> bool" where
  "qualifies ts i j \<longleftrightarrow>
     j \<noteq> i \<and> start (ts ! j) = start (ts ! i) \<and>
     location_precision (location (ts ! j)) = 2 \<and>
     \<bar>end_date (ts ! j) - end_date (ts ! i)\<bar> \<le> 1"

definition accepted :: "nat \<times> Tournament \<Rightarrow> nat \<times> Tournament \<Rightarrow> bool" where
  "accepted t c \<longleftrightarrow>
     fst c \<noteq> fst t \<and> location_precision (location (snd c)) = 2 \<and>
     \<bar>end_date (snd c) - end_date (snd t)\<bar> \<le> 1 \<and>
     jaccard (title (snd t)) (title (snd c)) \<ge> 28 / 100"

text \<open>
  For the location rules: a string is collapsed when no white space stands at its ends
  and every white space inside is a single blank between two other characters;
  \<open>fix_spelling\<close> names the spelling correction of \<open>normalize_location\<close>.
\<close>

fun collapsed :: "string \<Rightarrow> bool" where
  "collapsed [] = True"
| "collapsed [c] = (\<not> is_space c)"
| "collapsed (c # d # cs) =
     (\<not> is_space c \<and>
      (if is_space d then d = CHR '' '' \<and> cs \<noteq> [] \<and> collapsed cs else collapsed (d # cs)))"

definition fix_spelling :: "string \<Rightarrow> string" where
  "fix_spelling s = str_replace ''Tukey'' ''Turkey'' s"

text \<open>
  For the conflict detector: the test of the code on two rows, the days of a row, and two
  rows that have a day in common. \<open>overlapping_pairs\<close> collects the indices of the
  pairs of a list that pass the test.
\<close>

definition overlap :: "row \<Rightarrow> row \<Rightarrow> bool" where
  "overlap a b \<longleftrightarrow> row_start a \<le> row_end b \<and> row_start b \<le> row_end a"

definition day_span :: "row \<Rightarrow> date set" where
  "day_span r = {row_start r .. row_end r}"

definition shares_day :: "row \<Rightarrow> row \<Rightarrow> bool" where
  "shares_day a b \<longleftrightarrow> day_span a \<inter> day_span b \<noteq> {}"

fun overlapping_pairs :: "(nat \<times> row) list \<Rightarrow> nat set" where
  "overlapping_pairs [] = {}"
| "overlapping_pairs (a # rest) =
     (\<Union>b \<in> {b \<in> set rest. overlap (snd a) (snd b)}. {fst a, fst b}) \<union> overlapping_pairs rest"

text \<open>The records of the specification's cross-fill example, and a second listing of the first event.\<close>

definition us_open :: Tournament where
  "us_open =
     \<lparr>title = ''US Open'', organizer = ''WPA'', start = ymd2ord 2026 3 1,
      end_date = ymd2ord 2026 3 5, location = None, tour = Some ''WPA_ALL'',
      source = ''WPA iCal feed'', source_url = ''https://wpapool.com/?mec-ical-feed=1''\<rparr>"

definition us_open_usa :: Tournament where
  "us_open_usa =
     \<lparr>title = ''US OPEN'', organizer = ''Predator/PBS'', start = ymd2ord 2026 3 1,
      end_date = ymd2ord 2026 3 5, location = Some ''USA'', tour = None,
      source = ''Fallback article scrape'', source_url = ''https://77billiards.com/''\<rparr>"

definition us_open_qualifier :: Tournament where
  "us_open_qualifier =
     \<lparr>title = ''US Open Qualifier'', organizer = ''Matchroom'', start = ymd2ord 2026 3 1,
      end_date = ymd2ord 2026 3 6, location = Some ''Las Vegas, USA'', tour = Some ''WNT'',
      source = ''Matchroom schedule'', source_url = ''https://matchroompool.com/schedule/''\<rparr>"

text \<open>
  Two pairs of records for the threshold of the cross-fill: the titles of the first pair
  share 7 of their 25 tokens (similarity 0.28), the titles of the second pair share 27 of
  their 100 tokens (similarity 0.27).
\<close>

definition target_28 :: Tournament where
  "target_28 = us_open\<lparr>title :=
     ''s01 s02 s03 s04 s05 s06 s07 t01 t02 t03 t04 t05 t06 t07 t08 t09''\<rparr>"

definition source_28 :: Tournament where
  "source_28 = us_open_qualifier\<lparr>title :=
     ''s01 s02 s03 s04 s05 s06 s07 c01 c02 c03 c04 c05 c06 c07 c08 c09''\<rparr>"

definition target_27 :: Tournament where
  "target_27 = us_open\<lparr>title :=
     ''s01 s02 s03 s04 s05 s06 s07 s08 s09 s10 s11 s12 s13 s14 s15 s16 '' @
     ''s17 s18 s19 s20 s21 s22 s23 s24 s25 s26 s27 t01 t02 t03 t04 t05 '' @
     ''t06 t07 t08 t09 t10 t11 t12 t13 t14 t15 t16 t17 t18 t19 t20 t21 '' @
     ''t22 t23 t24 t25 t26 t27 t28 t29 t30 t31 t32 t33 t34 t35 t36''\<rparr>"

definition source_27 :: Tournament where
  "source_27 = us_open_qualifier\<lparr>title :=
     ''s01 s02 s03 s04 s05 s06 s07 s08 s09 s10 s11 s12 s13 s14 s15 s16 '' @
     ''s17 s18 s19 s20 s21 s22 s23 s24 s25 s26 s27 c01 c02 c03 c04 c05 '' @
     ''c06 c07 c08 c09 c10 c11 c12 c13 c14 c15 c16 c17 c18 c19 c20 c21 '' @
     ''c22 c23 c24 c25 c26 c27 c28 c29 c30 c31 c32 c33 c34 c35 c36 c37''\<rparr>"

text \<open>The rows of the specification's conflict example.\<close>

definition april_10_12 :: row where
  "april_10_12 = \<lparr>row_start = ymd2ord 2026 4 10, row_end = ymd2ord 2026 4 12, row_title = ''Open A''\<rparr>"

definition april_12_15 :: row where
  "april_12_15 = \<lparr>row_start = ymd2ord 2026 4 12, row_end = ymd2ord 2026 4 15, row_title = ''Open B''\<rparr>"

definition april_13_15 :: row where
  "april_13_15 = \<lparr>row_start = ymd2ord 2026 4 13, row_end = ymd2ord 2026 4 15, row_title = ''Open C''\<rparr>"

text \<open>
  Two rows of which the first ends before it starts: the dates \<open>fetch_wpa_ics\<close>
  gives an event within the day 2026-03-01, next to a row from 2026-02-20 to 2026-03-10.
\<close>

definition march_1_feb_28 :: row where
  "march_1_feb_28 =
     \<lparr>row_start = ymd2ord 2026 3 1, row_end = ymd2ord 2026 2 28, row_title = ''Open D''\<rparr>"

definition feb_20_march_10 :: row where
  "feb_20_march_10 =
     \<lparr>row_start = ymd2ord 2026 2 20, row_end = ymd2ord 2026 3 10, row_title = ''Open E''\<rparr>"

section \<open>Dedup: keys and precision\<close>

lemma location_precision_le_2: "location_precision loc \<le> 2"
  by (simp add: location_precision_def)

lemma location_precision_2_truthy: "location_precision loc = 2 \<Longrightarrow> truthy loc"
  by (auto simp: location_precision_def split: if_splits)

lemma location_precision_0_iff: "location_precision loc = 0 \<longleftrightarrow> \<not> truthy loc"
  by (simp add: location_precision_def)

lemma choose_better_precision:
  "location_precision (location (choose_better a b)) =
     max (location_precision (location a)) (location_precision (location b))"
  by (auto simp: choose_better_def Let_def)

lemma choose_better_cases: "choose_better a b = a \<or> choose_better a b = b"
  by (auto simp: choose_better_def Let_def location_precision_def split: if_splits)

lemma choose_better_key:
  "dedup_key a = dedup_key b \<Longrightarrow> dedup_key (choose_better a b) = dedup_key a"
  by (simp add: choose_better_def Let_def dedup_key_def start_iso_def)

lemma choose_better_tied_frame:
  "location_precision (location a) = location_precision (location b) \<Longrightarrow>
     same_but_location (choose_better a b) a"
  by (simp add: choose_better_def Let_def same_but_location_def)

lemma map_of_dict_set: "map_of (dict_set kvs k v) = (map_of kvs)(k \<mapsto> v)"
  by (induction kvs) (auto simp: fun_eq_iff)

lemma keys_dict_set:
  "map fst (dict_set kvs k v) = (if k \<in> fst ` set kvs then map fst kvs else map fst kvs @ [k])"
  by (induction kvs) (auto simp: rev_image_eqI)

lemma dict_set_fresh: "k \<notin> fst ` set kvs \<Longrightarrow> dict_set kvs k v = kvs @ [(k, v)]"
  by (induction kvs) auto

lemma distinct_dict_set: "distinct (map fst kvs) \<Longrightarrow> distinct (map fst (dict_set kvs k v))"
  by (simp add: keys_dict_set)

lemma map_of_dedup_step:
  "map_of (dedup_step t seen) =
     (map_of seen)(dedup_key t \<mapsto>
        (case map_of seen (dedup_key t) of None \<Rightarrow> t | Some cur \<Rightarrow> choose_better cur t))"
  by (simp add: dedup_step_def Let_def map_of_dict_set split: option.splits)

lemma keys_dedup_step:
  "map fst (dedup_step t seen) =
     (if dedup_key t \<in> fst ` set seen then map fst seen else map fst seen @ [dedup_key t])"
  by (simp add: dedup_step_def Let_def keys_dict_set split: option.splits)

lemma keyed_map_of: "keyed seen \<Longrightarrow> map_of seen k = Some v \<Longrightarrow> dedup_key v = k"
  by (auto simp: keyed_def dest: map_of_SomeD)

lemma keyed_dedup_step: assumes "keyed seen" shows "keyed (dedup_step t seen)"
proof -
  let ?k = "dedup_key t"
  let ?v = "case map_of seen ?k of None \<Rightarrow> t | Some cur \<Rightarrow> choose_better cur t"
  have d: "distinct (map fst (dedup_step t seen))"
    using assms by (simp add: keys_dedup_step keyed_def)
  have kv: "dedup_key ?v = ?k"
    using keyed_map_of[OF assms] by (auto split: option.splits simp: choose_better_key)
  have "dedup_key v = k" if "(k, v) \<in> set (dedup_step t seen)" for k v
  proof -
    from that d have "map_of (dedup_step t seen) k = Some v" by simp
    then have "((map_of seen)(?k \<mapsto> ?v)) k = Some v" by (simp add: map_of_dedup_step)
    then show ?thesis using kv keyed_map_of[OF assms] by (auto split: if_splits)
  qed
  with d show ?thesis by (auto simp: keyed_def)
qed

lemma keyed_fold: "keyed seen \<Longrightarrow> keyed (fold dedup_step ts seen)"
  by (induction ts arbitrary: seen) (auto simp: keyed_dedup_step)

lemma keys_fold:
  "fst ` set (fold dedup_step ts seen) = fst ` set seen \<union> dedup_key ` set ts"
proof (induction ts arbitrary: seen)
  case Nil then show ?case by simp
next
  case (Cons t ts)
  have "fst ` set (dedup_step t seen) = insert (dedup_key t) (fst ` set seen)"
    using keys_dedup_step[of t seen, THEN arg_cong, of set] by (auto split: if_splits)
  with Cons show ?case by auto
qed

lemma keyed_Nil: "keyed []" by (simp add: keyed_def)

lemma keyed_values: "keyed seen \<Longrightarrow> map dedup_key (map snd seen) = map fst seen"
  by (auto simp: keyed_def)

lemma dedup_keys_distinct: "distinct (map dedup_key (dedup ts))"
proof -
  let ?seen = "fold dedup_step ts []"
  have k: "keyed ?seen" by (rule keyed_fold[OF keyed_Nil])
  show ?thesis unfolding dedup_def keyed_values[OF k] using k by (simp add: keyed_def)
qed

lemma dedup_keys_set: "dedup_key ` set (dedup ts) = dedup_key ` set ts"
proof -
  let ?seen = "fold dedup_step ts []"
  have k: "keyed ?seen" by (rule keyed_fold[OF keyed_Nil])
  have "set (map dedup_key (map snd ?seen)) = set (map fst ?seen)"
    unfolding keyed_values[OF k] ..
  then have "dedup_key ` set (dedup ts) = fst ` set ?seen"
    unfolding dedup_def by (simp add: image_comp)
  then show ?thesis by (simp add: keys_fold)
qed

lemma fold_dedup_fresh:
  "distinct (map dedup_key ts) \<Longrightarrow> dedup_key ` set ts \<inter> fst ` set seen = {} \<Longrightarrow>
     fold dedup_step ts seen = seen @ map (\<lambda>t. (dedup_key t, t)) ts"
proof (induction ts arbitrary: seen)
  case Nil then show ?case by simp
next
  case (Cons t ts)
  have fresh: "dedup_key t \<notin> fst ` set seen" using Cons.prems by auto
  then have "map_of seen (dedup_key t) = None" by (simp add: map_of_eq_None_iff)
  then have step: "dedup_step t seen = seen @ [(dedup_key t, t)]"
    using fresh by (simp add: dedup_step_def Let_def dict_set_fresh)
  have "dedup_key ` set ts \<inter> fst ` set (seen @ [(dedup_key t, t)]) = {}"
    using Cons.prems by auto
  with Cons.IH[of "seen @ [(dedup_key t, t)]"] Cons.prems step show ?case by simp
qed

lemma dedup_distinct_id: "distinct (map dedup_key ts) \<Longrightarrow> dedup ts = ts"
  by (simp add: dedup_def fold_dedup_fresh comp_def)

lemma set_sub_runs: "set (sub_runs P repl s) \<subseteq> {c \<in> set s. \<not> P c} \<union> set repl"
proof (induction P repl s rule: sub_runs.induct)
  case (1 P repl) then show ?case by simp
next
  case (2 P repl c cs)
  have "set (dropWhile P cs) \<subseteq> set cs" by (rule set_dropWhileD[THEN subsetI])
  with 2 show ?case by (auto split: if_splits)
qed

lemma set_strip_by: "set (strip_by P s) \<subseteq> set s"
  unfolding strip_by_def by (auto dest!: set_dropWhileD)

lemma bar_not_alnum: "\<not> is_ascii_alnum CHR ''|''"
  by (simp add: is_ascii_alnum_def)

lemma lower_char_no_bar: "c \<noteq> CHR ''|'' \<Longrightarrow> lower_char c \<noteq> CHR ''|''"
proof (cases "CHR ''A'' \<le> c \<and> c \<le> CHR ''Z''")
  case True
  then have b: "65 \<le> (of_char c :: nat) \<and> (of_char c :: nat) \<le> 90"
    by (simp add: less_eq_char_def)
  have eq: "lower_char c = char_of (of_char c + (32::nat))"
    using True unfolding lower_char_def by (rule if_P)
  have "(of_char (char_of (of_char c + (32::nat))) :: nat) = (of_char c + 32) mod 256"
    by (rule of_char_of)
  with b have ne: "(of_char (lower_char c) :: nat) \<noteq> 124" unfolding eq by auto
  show ?thesis
  proof
    assume "lower_char c = CHR ''|''"
    then have "(of_char (lower_char c) :: nat) = of_char CHR ''|''" by (rule arg_cong)
    also have "\<dots> = 124" by simp
    finally show False using ne by blast
  qed
next
  case False
  assume c: "c \<noteq> CHR ''|''"
  from False have "lower_char c = c" unfolding lower_char_def by (rule if_not_P)
  then show ?thesis using c by (rule ssubst)
qed

lemma slug_no_bar: "CHR ''|'' \<notin> set (slug s)"
proof -
  let ?x = "concat (map nfkd_ascii s)"
  let ?y = "sub_runs (\<lambda>c. \<not> is_ascii_alnum c) ''-'' ?x"
  let ?z = "strip_by (\<lambda>c. c = CHR ''-'') ?y"
  have "set ?y \<subseteq> {c \<in> set ?x. \<not> \<not> is_ascii_alnum c} \<union> set ''-''"
    by (rule set_sub_runs)
  then have y: "\<forall>c \<in> set ?y. is_ascii_alnum c \<or> c = CHR ''-''" by auto
  have "CHR ''|'' \<notin> set ?y"
  proof
    assume "CHR ''|'' \<in> set ?y"
    with y have "is_ascii_alnum CHR ''|'' \<or> CHR ''|'' = CHR ''-''" by (rule bspec)
    then show False using bar_not_alnum by simp
  qed
  moreover have "set ?z \<subseteq> set ?y" by (rule set_strip_by)
  ultimately have z: "CHR ''|'' \<notin> set ?z" by (rule contra_subsetD[rotated])
  have "CHR ''|'' \<notin> lower_char ` set ?z"
  proof
    assume "CHR ''|'' \<in> lower_char ` set ?z"
    then obtain c where c: "c \<in> set ?z" "CHR ''|'' = lower_char c" by (rule imageE)
    from c(1) z have "c \<noteq> CHR ''|''" by (metis)
    then have "lower_char c \<noteq> CHR ''|''" by (rule lower_char_no_bar)
    with c(2) show False by metis
  qed
  then show ?thesis
    unfolding slug_def lower_def set_map .
qed

lemma takeWhile_sep: "c \<notin> set a \<Longrightarrow> takeWhile (\<lambda>z. z \<noteq> c) (a @ c # x) = a"
  by (induction a) auto

lemma sep_split_unique:
  assumes "c \<notin> set a" "c \<notin> set b" "a @ c # x = b @ c # y"
  shows "a = b \<and> x = y"
proof -
  have "a = takeWhile (\<lambda>z. z \<noteq> c) (a @ c # x)"
    using assms(1) by (simp add: takeWhile_sep)
  also have "\<dots> = takeWhile (\<lambda>z. z \<noteq> c) (b @ c # y)"
    by (simp only: assms(3))
  also have "\<dots> = b" using assms(2) by (simp add: takeWhile_sep)
  finally have ab: "a = b" .
  with assms(3) have "x = y" by (simp only: same_append_eq list.inject)
  with ab show ?thesis by (rule conjI)
qed

lemma dedup_key_eq_iff: "dedup_key t = dedup_key u \<longleftrightarrow> identity_key t = identity_key u"
proof
  assume "dedup_key t = dedup_key u"
  then have "slug (title t) @ CHR ''|'' # isoformat (start t) =
             slug (title u) @ CHR ''|'' # isoformat (start u)"
    unfolding dedup_key_def start_iso_def by simp
  with slug_no_bar slug_no_bar
  have "slug (title t) = slug (title u) \<and> isoformat (start t) = isoformat (start u)"
    by (rule sep_split_unique)
  then show "identity_key t = identity_key u" unfolding identity_key_def by simp
next
  assume "identity_key t = identity_key u"
  then show "dedup_key t = dedup_key u"
    unfolding identity_key_def dedup_key_def start_iso_def by simp
qed

lemma distinct_map_cong_key:
  assumes "distinct (map f xs)" and fg: "\<And>x y. g x = g y \<Longrightarrow> f x = f y"
  shows "distinct (map g xs)"
proof -
  from assms(1) have d: "distinct xs" and i: "inj_on f (set xs)"
    by (simp_all only: distinct_map)
  have "inj_on g (set xs)"
  proof (rule inj_onI)
    fix x y assume "x \<in> set xs" "y \<in> set xs" "g x = g y"
    then show "x = y" using fg[of x y] i by (blast dest: inj_onD)
  qed
  with d show ?thesis by (simp only: distinct_map)
qed

text \<open>
  Claim C2. For every input list, the output of \<open>dedup\<close> holds exactly one record for
  each identity key \<open>(slug(title), start.isoformat())\<close> of the input: the keys of the
  output are pairwise distinct (records with one key collapse to one record), and they
  are the keys of the input (records with distinct keys stay apart, no key is lost and
  none is invented).
\<close>

theorem dedup_one_per_key:
  "distinct (map identity_key (dedup ts)) \<and>
   set (map identity_key (dedup ts)) = set (map identity_key ts)"
proof
  show "distinct (map identity_key (dedup ts))"
    by (rule distinct_map_cong_key[OF dedup_keys_distinct]) (simp add: dedup_key_eq_iff)
next
  have "identity_key ` set (dedup ts) = identity_key ` set ts"
  proof (intro set_eqI iffI)
    fix k assume "k \<in> identity_key ` set (dedup ts)"
    then obtain o' where o: "o' \<in> set (dedup ts)" "k = identity_key o'" by auto
    then have "dedup_key o' \<in> dedup_key ` set ts" using dedup_keys_set by blast
    then obtain r where "r \<in> set ts" "dedup_key o' = dedup_key r" by auto
    with o show "k \<in> identity_key ` set ts" by (auto simp: dedup_key_eq_iff)
  next
    fix k assume "k \<in> identity_key ` set ts"
    then obtain r where r: "r \<in> set ts" "k = identity_key r" by auto
    then have "dedup_key r \<in> dedup_key ` set (dedup ts)" using dedup_keys_set by blast
    then obtain o' where "o' \<in> set (dedup ts)" "dedup_key r = dedup_key o'" by auto
    with r show "k \<in> identity_key ` set (dedup ts)" by (auto simp: dedup_key_eq_iff)
  qed
  then show "set (map identity_key (dedup ts)) = set (map identity_key ts)" by simp
qed

lemma dedup_step_precision:
  assumes "\<forall>r\<in>R. \<exists>v. map_of seen (dedup_key r) = Some v \<and>
             location_precision (location r) \<le> location_precision (location v)"
  shows "\<forall>r\<in>insert t R. \<exists>v. map_of (dedup_step t seen) (dedup_key r) = Some v \<and>
             location_precision (location r) \<le> location_precision (location v)"
proof
  fix r assume r: "r \<in> insert t R"
  let ?v = "case map_of seen (dedup_key t) of None \<Rightarrow> t | Some cur \<Rightarrow> choose_better cur t"
  have t: "location_precision (location t) \<le> location_precision (location ?v)"
    by (simp add: choose_better_precision split: option.splits)
  show "\<exists>v. map_of (dedup_step t seen) (dedup_key r) = Some v \<and>
             location_precision (location r) \<le> location_precision (location v)"
  proof (cases "dedup_key r = dedup_key t")
    case True
    have "location_precision (location r) \<le> location_precision (location ?v)"
    proof (cases "r \<in> R")
      case True
      with assms obtain v where v: "map_of seen (dedup_key r) = Some v"
        "location_precision (location r) \<le> location_precision (location v)" by blast
      with \<open>dedup_key r = dedup_key t\<close> show ?thesis
        by (simp add: choose_better_precision)
    next
      case False
      with r have "r = t" by simp
      with t show ?thesis by simp
    qed
    with True show ?thesis by (simp add: map_of_dedup_step)
  next
    case False
    with r have "r \<in> R" by auto
    with assms False show ?thesis by (simp add: map_of_dedup_step)
  qed
qed

lemma fold_dedup_precision:
  assumes "\<forall>r\<in>R. \<exists>v. map_of seen (dedup_key r) = Some v \<and>
             location_precision (location r) \<le> location_precision (location v)"
  shows "\<forall>r\<in>R \<union> set ts. \<exists>v. map_of (fold dedup_step ts seen) (dedup_key r) = Some v \<and>
             location_precision (location r) \<le> location_precision (location v)"
  using assms
proof (induction ts arbitrary: seen R)
  case Nil then show ?case by simp
next
  case (Cons t ts)
  have "\<forall>r\<in>insert t R \<union> set ts. \<exists>v. map_of (fold dedup_step ts (dedup_step t seen)) (dedup_key r) = Some v \<and>
             location_precision (location r) \<le> location_precision (location v)"
    by (rule Cons.IH[OF dedup_step_precision[OF Cons.prems]])
  then show ?case by simp
qed

lemma dedup_precision:
  assumes "r \<in> set ts"
  shows "\<exists>v\<in>set (dedup ts). dedup_key v = dedup_key r \<and>
           location_precision (location r) \<le> location_precision (location v)"
proof -
  let ?seen = "fold dedup_step ts []"
  have "\<forall>r\<in>{} \<union> set ts. \<exists>v. map_of ?seen (dedup_key r) = Some v \<and>
             location_precision (location r) \<le> location_precision (location v)"
    by (rule fold_dedup_precision) simp
  with assms obtain v where v: "map_of ?seen (dedup_key r) = Some v"
    "location_precision (location r) \<le> location_precision (location v)" by auto
  have k: "keyed ?seen" by (rule keyed_fold[OF keyed_Nil])
  from v(1) have "(dedup_key r, v) \<in> set ?seen" by (rule map_of_SomeD)
  then have "v \<in> set (dedup ts)" unfolding dedup_def by force
  moreover from k v(1) have "dedup_key v = dedup_key r" by (rule keyed_map_of)
  ultimately show ?thesis using v(2) by blast
qed

lemma best_candidate_loc:
  "fst (best_candidate t cands (bl, bs)) = bl \<or>
   location_precision (fst (best_candidate t cands (bl, bs))) = 2"
proof (induction cands arbitrary: bl bs)
  case Nil then show ?case by simp
next
  case (Cons c cands)
  show ?case
    using Cons.IH[of bl bs] Cons.IH[of "location (snd c)" "jaccard (title (snd t)) (title (snd c))"]
    by (auto simp: Let_def)
qed

lemma cross_fill_one_cases:
  "cross_fill_one ts t = snd t \<or>
   (location_precision (location (snd t)) \<noteq> 2 \<and>
    location_precision (location (cross_fill_one ts t)) = 2 \<and>
    cross_fill_one ts t = (snd t)\<lparr>location := location (cross_fill_one ts t)\<rparr>)"
proof -
  let ?cands = "case by_start_of ts (start (snd t)) of None \<Rightarrow> [] | Some l \<Rightarrow> l"
  let ?b = "fst (best_candidate t ?cands (None, 0))"
  have "?b = None \<or> location_precision ?b = 2" by (rule best_candidate_loc)
  moreover have "\<not> truthy None" by (simp add: truthy_def)
  ultimately show ?thesis
    by (auto simp: cross_fill_one_def Let_def)
qed

lemma cross_fill_one_frame: "same_but_location (cross_fill_one ts t) (snd t)"
  by (simp add: cross_fill_one_def Let_def same_but_location_def)

lemma length_cross_fill [simp]: "length (cross_fill_locations ts) = length ts"
  by (simp add: cross_fill_locations_def)

lemma nth_cross_fill:
  "i < length ts \<Longrightarrow> cross_fill_locations ts ! i = cross_fill_one ts (i, ts ! i)"
  by (simp add: cross_fill_locations_def nth_enumerate_eq)

lemma cross_fill_precision:
  assumes "i < length ts"
  shows "location_precision (location (ts ! i)) \<le>
         location_precision (location (cross_fill_locations ts ! i))"
  using cross_fill_one_cases[of ts "(i, ts ! i)"] location_precision_le_2[of "location (ts ! i)"]
  by (auto simp: nth_cross_fill[OF assms])

lemma same_but_location_key: "same_but_location r t \<Longrightarrow> dedup_key r = dedup_key t"
  by (simp add: same_but_location_def dedup_key_def start_iso_def)

section \<open>Precision, frame and idempotence of the merges\<close>

lemma nth_cross_fill_frame:
  "i < length ts \<Longrightarrow> same_but_location (cross_fill_locations ts ! i) (ts ! i)"
  using cross_fill_one_frame[of ts "(i, ts ! i)"] by (simp add: nth_cross_fill)

text \<open>
  Claim C1. Location precision never decreases through dedup and cross-fill. Every input
  record \<open>r\<close> contributes to the output record at one position \<open>i\<close> (the record
  with its identity key); the precision of that record after dedup is at least the
  precision of \<open>r\<close>, and after cross-fill at least that again. Moreover
  \<open>cross_fill_locations\<close> lowers the precision at no position of any list, a record
  it changes had a precision below 2 and gets a location of precision 2, and the record
  \<open>choose_better\<close> returns has at least the precision of both arguments.
\<close>

theorem precision_non_decreasing:
  "(\<forall>r\<in>set ts. \<exists>i<length (dedup ts).
       identity_key (dedup ts ! i) = identity_key r \<and>
       identity_key (cross_fill_locations (dedup ts) ! i) = identity_key r \<and>
       location_precision (location r) \<le> location_precision (location (dedup ts ! i)) \<and>
       location_precision (location (dedup ts ! i)) \<le>
         location_precision (location (cross_fill_locations (dedup ts) ! i))) \<and>
   (\<forall>i<length us.
       location_precision (location (us ! i)) \<le>
         location_precision (location (cross_fill_locations us ! i)) \<and>
       (cross_fill_locations us ! i \<noteq> us ! i \<longrightarrow>
          location_precision (location (us ! i)) < 2 \<and>
          location_precision (location (cross_fill_locations us ! i)) = 2)) \<and>
   location_precision (location a) \<le> location_precision (location (choose_better a b)) \<and>
   location_precision (location b) \<le> location_precision (location (choose_better a b))"
proof -
  have pipeline: "\<exists>i<length (dedup ts).
       identity_key (dedup ts ! i) = identity_key r \<and>
       identity_key (cross_fill_locations (dedup ts) ! i) = identity_key r \<and>
       location_precision (location r) \<le> location_precision (location (dedup ts ! i)) \<and>
       location_precision (location (dedup ts ! i)) \<le>
         location_precision (location (cross_fill_locations (dedup ts) ! i))"
    if "r \<in> set ts" for r
  proof -
    from that obtain v where v: "v \<in> set (dedup ts)" "dedup_key v = dedup_key r"
      "location_precision (location r) \<le> location_precision (location v)"
      using dedup_precision by blast
    from v(1) obtain i where i: "i < length (dedup ts)" "dedup ts ! i = v"
      by (auto simp: in_set_conv_nth)
    have "same_but_location (cross_fill_locations (dedup ts) ! i) (dedup ts ! i)"
      using i(1) by (rule nth_cross_fill_frame)
    then have "dedup_key (cross_fill_locations (dedup ts) ! i) = dedup_key r"
      using v(2) i(2) by (simp add: same_but_location_key)
    then show ?thesis
      using i v cross_fill_precision[OF i(1)] by (auto simp: dedup_key_eq_iff)
  qed
  have fill: "location_precision (location (us ! i)) \<le>
         location_precision (location (cross_fill_locations us ! i)) \<and>
       (cross_fill_locations us ! i \<noteq> us ! i \<longrightarrow>
          location_precision (location (us ! i)) < 2 \<and>
          location_precision (location (cross_fill_locations us ! i)) = 2)"
    if "i < length us" for i
    using cross_fill_one_cases[of us "(i, us ! i)"] cross_fill_precision[OF that]
      location_precision_le_2[of "location (us ! i)"]
    by (auto simp: nth_cross_fill[OF that])
  have "location_precision (location a) \<le> location_precision (location (choose_better a b))"
    and "location_precision (location b) \<le> location_precision (location (choose_better a b))"
    by (simp_all add: choose_better_precision)
  with pipeline fill show ?thesis by blast
qed

theorem precision_non_decreasing_witness:
  "us_open \<in> set [us_open, us_open_usa, us_open_qualifier] \<and>
   (\<exists>i<length (dedup [us_open, us_open_usa, us_open_qualifier]).
       identity_key (cross_fill_locations (dedup [us_open, us_open_usa, us_open_qualifier]) ! i) =
         identity_key us_open \<and>
       location_precision (location us_open) \<le>
         location_precision (location
           (cross_fill_locations (dedup [us_open, us_open_usa, us_open_qualifier]) ! i))) \<and>
   location_precision (location us_open) = 0 \<and>
   map location (dedup [us_open, us_open_usa, us_open_qualifier]) =
     [Some ''USA'', Some ''Las Vegas, USA''] \<and>
   map location (cross_fill_locations (dedup [us_open, us_open_usa, us_open_qualifier])) =
     [Some ''Las Vegas, USA'', Some ''Las Vegas, USA'']"
proof -
  let ?ts = "[us_open, us_open_usa, us_open_qualifier]"
  have m: "us_open \<in> set ?ts" by simp
  have "\<forall>r\<in>set ?ts. \<exists>i<length (dedup ?ts).
       identity_key (dedup ?ts ! i) = identity_key r \<and>
       identity_key (cross_fill_locations (dedup ?ts) ! i) = identity_key r \<and>
       location_precision (location r) \<le> location_precision (location (dedup ?ts ! i)) \<and>
       location_precision (location (dedup ?ts ! i)) \<le>
         location_precision (location (cross_fill_locations (dedup ?ts) ! i))"
    using precision_non_decreasing[of ?ts "[]" us_open us_open] by (rule conjunct1)
  from bspec[OF this m] obtain i where "i < length (dedup ?ts)"
    "identity_key (cross_fill_locations (dedup ?ts) ! i) = identity_key us_open"
    "location_precision (location us_open) \<le> location_precision (location (dedup ?ts ! i))"
    "location_precision (location (dedup ?ts ! i)) \<le>
         location_precision (location (cross_fill_locations (dedup ?ts) ! i))"
    by blast
  then have e: "\<exists>i<length (dedup ?ts).
       identity_key (cross_fill_locations (dedup ?ts) ! i) = identity_key us_open \<and>
       location_precision (location us_open) \<le>
         location_precision (location (cross_fill_locations (dedup ?ts) ! i))"
    using le_trans by blast
  have p: "location_precision (location us_open) = 0" by code_simp
  have d: "map location (dedup ?ts) = [Some ''USA'', Some ''Las Vegas, USA'']" by code_simp
  have c: "map location (cross_fill_locations (dedup ?ts)) =
     [Some ''Las Vegas, USA'', Some ''Las Vegas, USA'']" by code_simp
  from m e p d c show ?thesis by (intro conjI)
qed

text \<open>
  Claim C8. Merging locations changes nothing but the location. When the two arguments
  of \<open>choose_better\<close> have the same precision, the result has the first argument's
  title, organizer, start, end, tour, source and source URL; in general the result is the
  second argument or agrees with the first on these fields. \<open>cross_fill_locations\<close>
  returns a list of the same length in which every record agrees with the input record
  at its position on these fields.
\<close>

theorem location_merge_frame:
  "(location_precision (location a) = location_precision (location b) \<longrightarrow>
      same_but_location (choose_better a b) a) \<and>
   (choose_better a b = b \<or> same_but_location (choose_better a b) a) \<and>
   length (cross_fill_locations ts) = length ts \<and>
   (\<forall>i<length ts. same_but_location (cross_fill_locations ts ! i) (ts ! i))"
proof (intro conjI allI impI)
  assume "location_precision (location a) = location_precision (location b)"
  then show "same_but_location (choose_better a b) a" by (rule choose_better_tied_frame)
next
  show "choose_better a b = b \<or> same_but_location (choose_better a b) a"
    by (simp add: choose_better_def Let_def same_but_location_def)
next
  show "length (cross_fill_locations ts) = length ts" by simp
next
  fix i assume "i < length ts"
  then show "same_but_location (cross_fill_locations ts ! i) (ts ! i)"
    by (rule nth_cross_fill_frame)
qed

theorem location_merge_frame_witness:
  "location_precision (location us_open) =
     location_precision (location (us_open_usa\<lparr>location := Some []\<rparr>)) \<and>
   same_but_location (choose_better us_open (us_open_usa\<lparr>location := Some []\<rparr>)) us_open \<and>
   0 < length [us_open, us_open_qualifier] \<and>
   same_but_location (cross_fill_locations [us_open, us_open_qualifier] ! 0)
     ([us_open, us_open_qualifier] ! 0) \<and>
   location (cross_fill_locations [us_open, us_open_qualifier] ! 0) = Some ''Las Vegas, USA'' \<and>
   location ([us_open, us_open_qualifier] ! 0) = None"
proof -
  let ?b = "us_open_usa\<lparr>location := Some []\<rparr>"
  let ?ts = "[us_open, us_open_qualifier]"
  have t: "location_precision (location us_open) = location_precision (location ?b)"
    by code_simp
  have n: "0 < length ?ts" by simp
  have f: "location (cross_fill_locations ?ts ! 0) = Some ''Las Vegas, USA''" by code_simp
  have l: "location (?ts ! 0) = None" by code_simp
  from location_merge_frame[of us_open ?b ?ts] t n
  have "same_but_location (choose_better us_open ?b) us_open"
    and "same_but_location (cross_fill_locations ?ts ! 0) (?ts ! 0)" by blast+
  with t n f l show ?thesis by (intro conjI)
qed

text \<open>
  Claim C9. \<open>dedup\<close> is idempotent: a second pass returns the list of the first,
  in the same order.
\<close>

theorem dedup_idempotent: "dedup (dedup ts) = dedup ts"
  by (rule dedup_distinct_id[OF dedup_keys_distinct])

section \<open>The threshold of the cross-fill\<close>

lemma fold_by_start:
  "fold (\<lambda>p m. m(start (snd p) \<mapsto> (case m (start (snd p)) of None \<Rightarrow> [] | Some l \<Rightarrow> l) @ [p])) ps m0 =
     (\<lambda>d. if filter (\<lambda>p. start (snd p) = d) ps = [] then m0 d
          else Some ((case m0 d of None \<Rightarrow> [] | Some l \<Rightarrow> l) @ filter (\<lambda>p. start (snd p) = d) ps))"
proof (induction ps arbitrary: m0)
  case Nil then show ?case by simp
next
  case (Cons p ps)
  show ?case unfolding fold_simps Cons.IH by (rule ext) (auto split: option.splits)
qed

lemma by_start_cands:
  "(case by_start_of ts d of None \<Rightarrow> [] | Some l \<Rightarrow> l) =
     filter (\<lambda>p. start (snd p) = d) (enumerate 0 ts)"
  unfolding by_start_of_def fold_by_start by simp

lemma best_candidate_none:
  "\<forall>c\<in>set cands. \<not> accepted t c \<Longrightarrow> best_candidate t cands best = best"
proof (induction cands arbitrary: best)
  case Nil then show ?case by simp
next
  case (Cons c cands)
  obtain bl bs where b: "best = (bl, bs)" by (cases best)
  from Cons.prems have "\<not> accepted t c" by simp
  then show ?case using Cons b by (auto simp: accepted_def Let_def not_le)
qed

lemma best_candidate_inv:
  assumes "best_candidate t cands (bl, bs) = (bl', bs')"
  shows "bs \<le> bs' \<and> (\<forall>c\<in>set cands. accepted t c \<longrightarrow> jaccard (title (snd t)) (title (snd c)) \<le> bs') \<and>
         ((bl', bs') = (bl, bs) \<or>
          (\<exists>c\<in>set cands. accepted t c \<and> bl' = location (snd c) \<and>
              bs' = jaccard (title (snd t)) (title (snd c))))"
  using assms
proof (induction cands arbitrary: bl bs)
  case Nil then show ?case by simp
next
  case (Cons c cands)
  let ?sim = "jaccard (title (snd t)) (title (snd c))"
  show ?case
  proof (cases "accepted t c \<and> ?sim > bs")
    case True
    then have "best_candidate t (c # cands) (bl, bs) = best_candidate t cands (location (snd c), ?sim)"
      by (auto simp: accepted_def Let_def)
    with Cons.prems have r: "best_candidate t cands (location (snd c), ?sim) = (bl', bs')" by simp
    from Cons.IH[OF r] True show ?thesis by auto
  next
    case False
    then have "best_candidate t (c # cands) (bl, bs) = best_candidate t cands (bl, bs)"
      by (auto simp: accepted_def Let_def not_le not_less)
    with Cons.prems have r: "best_candidate t cands (bl, bs) = (bl', bs')" by simp
    from Cons.IH[OF r] False show ?thesis by (auto simp: not_less)
  qed
qed

lemma cands_member:
  "c \<in> set (filter (\<lambda>p. start (snd p) = d) (enumerate 0 ts)) \<longleftrightarrow>
     fst c < length ts \<and> snd c = ts ! fst c \<and> start (snd c) = d"
  by (cases c) (auto simp: in_set_enumerate_eq)

lemma accepted_iff:
  "accepted (i, ts ! i) (k, ts ! k) \<and> start (ts ! k) = start (ts ! i) \<longleftrightarrow>
     qualifies ts i k \<and> jaccard (title (ts ! i)) (title (ts ! k)) \<ge> 28 / 100"
  by (auto simp: accepted_def qualifies_def)

lemma precision_2_differs:
  "location_precision l = 2 \<Longrightarrow> location_precision l' \<noteq> 2 \<Longrightarrow> truthy l \<and> l \<noteq> l'"
  by (auto simp: location_precision_2_truthy)

text \<open>
  Claim C6. The threshold of the cross-fill. Let the record at position \<open>i\<close> have a
  precision below 2, and call a record at another position a qualifying candidate when it
  has the same start date, a location of precision 2 and an end date at most one day
  away. If a qualifying candidate has title similarity exactly 0.28 and none has more, the
  record's location is replaced by the location of a qualifying candidate of similarity
  exactly 0.28. If a qualifying candidate has similarity 0.27 and none has more, the
  record is left as it is.
\<close>

theorem cross_fill_threshold:
  assumes "i < length ts" and "location_precision (location (ts ! i)) \<noteq> 2"
  shows
    "((\<exists>j<length ts. qualifies ts i j \<and> jaccard (title (ts ! i)) (title (ts ! j)) = 28 / 100) \<and>
      (\<forall>k<length ts. qualifies ts i k \<longrightarrow> jaccard (title (ts ! i)) (title (ts ! k)) \<le> 28 / 100)
      \<longrightarrow> (\<exists>j<length ts. qualifies ts i j \<and>
              jaccard (title (ts ! i)) (title (ts ! j)) = 28 / 100 \<and>
              cross_fill_locations ts ! i = (ts ! i)\<lparr>location := location (ts ! j)\<rparr>)) \<and>
     ((\<exists>j<length ts. qualifies ts i j \<and> jaccard (title (ts ! i)) (title (ts ! j)) = 27 / 100) \<and>
      (\<forall>k<length ts. qualifies ts i k \<longrightarrow> jaccard (title (ts ! i)) (title (ts ! k)) \<le> 27 / 100)
      \<longrightarrow> cross_fill_locations ts ! i = ts ! i)"
proof (intro conjI impI)
  let ?t = "(i, ts ! i)"
  let ?cands = "filter (\<lambda>p. start (snd p) = start (ts ! i)) (enumerate 0 ts)"
  let ?b = "fst (best_candidate ?t ?cands (None, 0))"
  have one: "cross_fill_locations ts ! i =
     (if truthy ?b \<and> ?b \<noteq> location (ts ! i)
      then (ts ! i)\<lparr>location := ?b\<rparr> else ts ! i)"
    using assms by (simp add: nth_cross_fill cross_fill_one_def by_start_cands Let_def)
  {
    assume h: "(\<exists>j<length ts. qualifies ts i j \<and> jaccard (title (ts ! i)) (title (ts ! j)) = 28 / 100) \<and>
      (\<forall>k<length ts. qualifies ts i k \<longrightarrow> jaccard (title (ts ! i)) (title (ts ! k)) \<le> 28 / 100)"
    then obtain j where j: "j < length ts" "qualifies ts i j"
      "jaccard (title (ts ! i)) (title (ts ! j)) = 28 / 100" by blast
    obtain bl bs where b: "best_candidate ?t ?cands (None, 0) = (bl, bs)"
      by (cases "best_candidate ?t ?cands (None, 0)")
    note inv = best_candidate_inv[OF b]
    have jc: "(j, ts ! j) \<in> set ?cands"
      using j(1,2) unfolding cands_member qualifies_def by simp
    have "accepted ?t (j, ts ! j)"
      using j accepted_iff[of i ts j] by (simp add: qualifies_def)
    with inv jc have "28 / 100 \<le> bs" using j(3) by fastforce
    then have "(bl, bs) \<noteq> (None, 0)" by auto
    with inv obtain c where c: "c \<in> set ?cands" "accepted ?t c" "bl = location (snd c)"
      "bs = jaccard (title (snd ?t)) (title (snd c))" by blast
    obtain k where k: "c = (k, ts ! k)" "k < length ts" "start (ts ! k) = start (ts ! i)"
      using c(1) unfolding cands_member by (cases c) auto
    have q: "qualifies ts i k" "jaccard (title (ts ! i)) (title (ts ! k)) \<ge> 28 / 100"
      using c(2) k accepted_iff[of i ts k] by auto
    with h k(2) have e: "jaccard (title (ts ! i)) (title (ts ! k)) = 28 / 100" by fastforce
    have "location_precision bl = 2" using c(3) k(1) q(1) by (simp add: qualifies_def)
    then have "truthy bl \<and> bl \<noteq> location (ts ! i)"
      using assms(2) by (rule precision_2_differs)
    then have "cross_fill_locations ts ! i = (ts ! i)\<lparr>location := location (ts ! k)\<rparr>"
      using one b c(3) k(1) by simp
    with k(2) q(1) e
    show "\<exists>j<length ts. qualifies ts i j \<and>
              jaccard (title (ts ! i)) (title (ts ! j)) = 28 / 100 \<and>
              cross_fill_locations ts ! i = (ts ! i)\<lparr>location := location (ts ! j)\<rparr>"
      by blast
  }
  {
    assume h: "(\<exists>j<length ts. qualifies ts i j \<and> jaccard (title (ts ! i)) (title (ts ! j)) = 27 / 100) \<and>
      (\<forall>k<length ts. qualifies ts i k \<longrightarrow> jaccard (title (ts ! i)) (title (ts ! k)) \<le> 27 / 100)"
    have "\<forall>c\<in>set ?cands. \<not> accepted ?t c"
    proof
      fix c assume "c \<in> set ?cands"
      then obtain k where k: "c = (k, ts ! k)" "k < length ts" "start (ts ! k) = start (ts ! i)"
        unfolding cands_member by (cases c) auto
      show "\<not> accepted ?t c"
      proof
        assume "accepted ?t c"
        then have "qualifies ts i k" "jaccard (title (ts ! i)) (title (ts ! k)) \<ge> 28 / 100"
          using k accepted_iff[of i ts k] by auto
        moreover from this(1) h k(2) have "jaccard (title (ts ! i)) (title (ts ! k)) \<le> 27 / 100"
          by blast
        ultimately show False by simp
      qed
    qed
    then have "best_candidate ?t ?cands (None, 0) = (None, 0)" by (rule best_candidate_none)
    then show "cross_fill_locations ts ! i = ts ! i"
      using one by (simp add: truthy_def)
  }
qed

theorem cross_fill_threshold_witness:
  "jaccard (title target_28) (title source_28) = 28 / 100 \<and>
   cross_fill_locations [target_28, source_28] ! 0 =
     target_28\<lparr>location := Some ''Las Vegas, USA''\<rparr> \<and>
   jaccard (title target_27) (title source_27) = 27 / 100 \<and>
   cross_fill_locations [target_27, source_27] ! 0 = target_27"
proof -
  let ?A = "[target_28, source_28]"
  let ?B = "[target_27, source_27]"
  have jA: "jaccard (title target_28) (title source_28) = 28 / 100" by code_simp
  have jB: "jaccard (title target_27) (title source_27) = 27 / 100" by code_simp
  have qA: "qualifies ?A 0 1" by code_simp
  have qB: "qualifies ?B 0 1" by code_simp
  have pA: "location_precision (location (?A ! 0)) \<noteq> 2" by code_simp
  have pB: "location_precision (location (?B ! 0)) \<noteq> 2" by code_simp
  have lA: "location source_28 = Some ''Las Vegas, USA''" by code_simp
  have oA: "k = 1" if "k < length ?A" "qualifies ?A 0 k" for k
    using that by (auto simp: qualifies_def)
  have oB: "k = 1" if "k < length ?B" "qualifies ?B 0 k" for k
    using that by (auto simp: qualifies_def)
  have hA: "(\<exists>j<length ?A. qualifies ?A 0 j \<and>
               jaccard (title (?A ! 0)) (title (?A ! j)) = 28 / 100) \<and>
            (\<forall>k<length ?A. qualifies ?A 0 k \<longrightarrow>
               jaccard (title (?A ! 0)) (title (?A ! k)) \<le> 28 / 100)"
  proof (intro conjI allI impI)
    show "\<exists>j<length ?A. qualifies ?A 0 j \<and>
               jaccard (title (?A ! 0)) (title (?A ! j)) = 28 / 100"
      using qA jA by (intro exI[of _ 1]) simp
  next
    fix k assume "k < length ?A" "qualifies ?A 0 k"
    then have "k = 1" by (rule oA)
    then show "jaccard (title (?A ! 0)) (title (?A ! k)) \<le> 28 / 100" using jA by simp
  qed
  have hB: "(\<exists>j<length ?B. qualifies ?B 0 j \<and>
               jaccard (title (?B ! 0)) (title (?B ! j)) = 27 / 100) \<and>
            (\<forall>k<length ?B. qualifies ?B 0 k \<longrightarrow>
               jaccard (title (?B ! 0)) (title (?B ! k)) \<le> 27 / 100)"
  proof (intro conjI allI impI)
    show "\<exists>j<length ?B. qualifies ?B 0 j \<and>
               jaccard (title (?B ! 0)) (title (?B ! j)) = 27 / 100"
      using qB jB by (intro exI[of _ 1]) simp
  next
    fix k assume "k < length ?B" "qualifies ?B 0 k"
    then have "k = 1" by (rule oB)
    then show "jaccard (title (?B ! 0)) (title (?B ! k)) \<le> 27 / 100" using jB by simp
  qed
  have n: "0 < length ?A" "0 < length ?B" by simp_all
  from cross_fill_threshold[OF n(1) pA, THEN conjunct1, rule_format, OF hA]
  obtain j where j: "j < length ?A" "qualifies ?A 0 j"
    "cross_fill_locations ?A ! 0 = (?A ! 0)\<lparr>location := location (?A ! j)\<rparr>" by blast
  from j(1,2) have "j = 1" by (rule oA)
  with j(3) lA have rA: "cross_fill_locations ?A ! 0 =
     target_28\<lparr>location := Some ''Las Vegas, USA''\<rparr>" by simp
  from cross_fill_threshold[OF n(2) pB, THEN conjunct2, rule_format, OF hB]
  have rB: "cross_fill_locations ?B ! 0 = target_27" by simp
  from jA rA jB rB show ?thesis by (intro conjI)
qed

section \<open>The conflict detector\<close>

lemma overlap_sym: "overlap a b \<longleftrightarrow> overlap b a"
  by (auto simp: overlap_def)

lemma shares_day_iff:
  "shares_day a b \<longleftrightarrow> row_start a \<le> row_end a \<and> row_start b \<le> row_end b \<and> overlap a b"
proof
  assume "shares_day a b"
  then obtain d where "d \<in> day_span a" "d \<in> day_span b" unfolding shares_day_def by blast
  then show "row_start a \<le> row_end a \<and> row_start b \<le> row_end b \<and> overlap a b"
    unfolding day_span_def overlap_def by auto
next
  assume h: "row_start a \<le> row_end a \<and> row_start b \<le> row_end b \<and> overlap a b"
  let ?d = "max (row_start a) (row_start b)"
  from h have "?d \<in> day_span a" "?d \<in> day_span b"
    unfolding day_span_def overlap_def by auto
  then show "shares_day a b" unfolding shares_day_def by blast
qed

lemma conflicts_from_eq:
  "sorted (map (\<lambda>x. row_start (snd x)) bs) \<Longrightarrow>
     conflicts_from a bs C =
       C \<union> (\<Union>b \<in> {b \<in> set bs. overlap (snd a) (snd b)}. {fst a, fst b})"
proof (induction bs arbitrary: C)
  case Nil then show ?case by simp
next
  case (Cons b bs)
  from Cons.prems have s: "sorted (map (\<lambda>x. row_start (snd x)) bs)"
    and le: "\<forall>b'\<in>set bs. row_start (snd b) \<le> row_start (snd b')" by auto
  show ?case
  proof (cases "row_start (snd b) > row_end (snd a)")
    case True
    with le have "\<forall>b'\<in>set (b # bs). \<not> overlap (snd a) (snd b')"
      by (auto simp: overlap_def)
    then have "{b' \<in> set (b # bs). overlap (snd a) (snd b')} = {}" by blast
    with True show ?thesis by simp
  next
    case False
    show ?thesis
    proof (cases "overlap (snd a) (snd b)")
      case True
      then have "conflicts_from a (b # bs) C = conflicts_from a bs (insert (fst b) (insert (fst a) C))"
        using False by (simp add: overlap_def)
      also have "\<dots> = insert (fst b) (insert (fst a) C) \<union>
          (\<Union>b \<in> {b \<in> set bs. overlap (snd a) (snd b)}. {fst a, fst b})"
        by (rule Cons.IH[OF s])
      also have "\<dots> = C \<union> (\<Union>b' \<in> {b' \<in> set (b # bs). overlap (snd a) (snd b')}. {fst a, fst b'})"
      proof -
        have "{b' \<in> set (b # bs). overlap (snd a) (snd b')} =
              insert b {b' \<in> set bs. overlap (snd a) (snd b')}"
          using True by auto
        then show ?thesis by auto
      qed
      finally show ?thesis .
    next
      case nov: False
      then have "conflicts_from a (b # bs) C = conflicts_from a bs C"
        using False by (simp add: overlap_def)
      also have "\<dots> = C \<union> (\<Union>b \<in> {b \<in> set bs. overlap (snd a) (snd b)}. {fst a, fst b})"
        by (rule Cons.IH[OF s])
      also have "\<dots> = C \<union> (\<Union>b' \<in> {b' \<in> set (b # bs). overlap (snd a) (snd b')}. {fst a, fst b'})"
      proof -
        have "{b' \<in> set (b # bs). overlap (snd a) (snd b')} =
              {b' \<in> set bs. overlap (snd a) (snd b')}"
          using nov by auto
        then show ?thesis by simp
      qed
      finally show ?thesis .
    qed
  qed
qed

lemma conflicts_sweep_eq:
  "sorted (map (\<lambda>x. row_start (snd x)) xs) \<Longrightarrow>
     conflicts_sweep xs C = C \<union> overlapping_pairs xs"
proof (induction xs arbitrary: C)
  case Nil then show ?case by simp
next
  case (Cons a rest)
  from Cons.prems have s: "sorted (map (\<lambda>x. row_start (snd x)) rest)" by simp
  show ?case
    unfolding conflicts_sweep.simps conflicts_from_eq[OF s] Cons.IH[OF s] overlapping_pairs.simps
    by (simp only: Un_assoc)
qed

lemma overlapping_pairs_eq:
  "distinct (map fst xs) \<Longrightarrow>
     overlapping_pairs xs =
       {i. \<exists>a\<in>set xs. \<exists>b\<in>set xs. fst a = i \<and> fst b \<noteq> i \<and> overlap (snd a) (snd b)}"
proof (induction xs)
  case Nil then show ?case by simp
next
  case (Cons x xs)
  from Cons.prems have d: "distinct (map fst xs)" and "fst x \<notin> fst ` set xs" by simp_all
  then have nx: "\<forall>b\<in>set xs. fst b \<noteq> fst x" by (metis imageI)
  let ?R = "\<lambda>ys. {i. \<exists>a\<in>set ys. \<exists>b\<in>set ys. fst a = i \<and> fst b \<noteq> i \<and> overlap (snd a) (snd b)}"
  have "?R (x # xs) = (\<Union>b \<in> {b \<in> set xs. overlap (snd x) (snd b)}. {fst x, fst b}) \<union> ?R xs"
  proof (intro set_eqI iffI)
    fix i assume "i \<in> ?R (x # xs)"
    then obtain a b where ab: "a \<in> set (x # xs)" "b \<in> set (x # xs)" "fst a = i" "fst b \<noteq> i"
      "overlap (snd a) (snd b)" by blast
    show "i \<in> (\<Union>b \<in> {b \<in> set xs. overlap (snd x) (snd b)}. {fst x, fst b}) \<union> ?R xs"
    proof (cases "a = x")
      case True
      with ab have "b \<in> set xs" by auto
      with ab True have "b \<in> {b \<in> set xs. overlap (snd x) (snd b)}" "i \<in> {fst x, fst b}"
        by simp_all
      then show ?thesis by blast
    next
      case False
      then have a: "a \<in> set xs" using ab by simp
      show ?thesis
      proof (cases "b = x")
        case True
        with ab have "overlap (snd x) (snd a)" using overlap_sym by blast
        with a ab have "a \<in> {b \<in> set xs. overlap (snd x) (snd b)}" "i \<in> {fst x, fst a}"
          by simp_all
        then show ?thesis by blast
      next
        case False
        then have "b \<in> set xs" using ab by simp
        with a ab show ?thesis by blast
      qed
    qed
  next
    fix i assume "i \<in> (\<Union>b \<in> {b \<in> set xs. overlap (snd x) (snd b)}. {fst x, fst b}) \<union> ?R xs"
    then consider (l) "i \<in> (\<Union>b \<in> {b \<in> set xs. overlap (snd x) (snd b)}. {fst x, fst b})"
      | (r) "i \<in> ?R xs" by (rule UnE)
    then show "i \<in> ?R (x # xs)"
    proof cases
      case l0: l
      then obtain b where "b \<in> {b \<in> set xs. overlap (snd x) (snd b)}" "i \<in> {fst x, fst b}"
        by (rule UN_E)
      then have l: "b \<in> set xs" "overlap (snd x) (snd b)" "i = fst x \<or> i = fst b"
        by simp_all
      from l(1) nx have ne: "fst b \<noteq> fst x" by blast
      from l(3) show ?thesis
      proof
        assume "i = fst x"
        with l ne show ?thesis by (intro CollectI bexI[of _ x] bexI[of _ b]) auto
      next
        assume "i = fst b"
        moreover from l(2) have "overlap (snd b) (snd x)" using overlap_sym by blast
        ultimately show ?thesis using l(1) ne
          by (intro CollectI bexI[of _ b] bexI[of _ x]) auto
      qed
    next
      case r
      then show ?thesis by auto
    qed
  qed
  with Cons.IH[OF d] show ?case by simp
qed

lemma sorted_starts:
  "sorted (map (\<lambda>x. row_start (snd x)) (sort_key sort_key_of xs))"
proof -
  have "sorted (map sort_key_of (sort_key sort_key_of xs))" by (rule sorted_sort_key)
  then have "sorted_wrt (\<lambda>x y. sort_key_of x \<le> sort_key_of y) (sort_key sort_key_of xs)"
    by (simp only: sorted_map)
  then have "sorted_wrt (\<lambda>x y. row_start (snd x) \<le> row_start (snd y)) (sort_key sort_key_of xs)"
  proof (rule sorted_wrt_mono_rel[rotated])
    fix x y assume "sort_key_of x \<le> sort_key_of y"
    then show "row_start (snd x) \<le> row_start (snd y)"
      by (auto simp: sort_key_of_def less_eq_prod_def)
  qed
  then show ?thesis by (simp only: sorted_map)
qed

lemma distinct_sorted_indices:
  "distinct (map fst (sort_key sort_key_of (enumerate 0 rows)))"
proof -
  let ?xs = "sort_key sort_key_of (enumerate 0 rows)"
  have "distinct ?xs" by (simp add: distinct_enumerate)
  moreover have "inj_on fst (set ?xs)"
    by (rule inj_onI) (auto simp: in_set_enumerate_eq)
  ultimately show ?thesis by (simp only: distinct_map)
qed

lemma build_conflict_set_overlap:
  "build_conflict_set rows =
     {i. i < length rows \<and> (\<exists>j<length rows. j \<noteq> i \<and> overlap (rows ! i) (rows ! j))}"
proof -
  let ?xs = "sort_key sort_key_of (enumerate 0 rows)"
  have mem: "x \<in> set ?xs \<longleftrightarrow> fst x < length rows \<and> snd x = rows ! fst x" for x
    by (cases x) (auto simp: in_set_enumerate_eq)
  have "build_conflict_set rows = overlapping_pairs ?xs"
    unfolding build_conflict_set_def conflicts_sweep_eq[OF sorted_starts] by simp
  also have "\<dots> = {i. \<exists>a\<in>set ?xs. \<exists>b\<in>set ?xs. fst a = i \<and> fst b \<noteq> i \<and> overlap (snd a) (snd b)}"
    by (rule overlapping_pairs_eq[OF distinct_sorted_indices])
  also have "\<dots> = {i. i < length rows \<and> (\<exists>j<length rows. j \<noteq> i \<and> overlap (rows ! i) (rows ! j))}"
  proof (intro set_eqI iffI)
    fix i assume "i \<in> {i. \<exists>a\<in>set ?xs. \<exists>b\<in>set ?xs. fst a = i \<and> fst b \<noteq> i \<and> overlap (snd a) (snd b)}"
    then obtain a b where ab: "a \<in> set ?xs" "b \<in> set ?xs" "fst a = i" "fst b \<noteq> i"
      "overlap (snd a) (snd b)" by blast
    from ab(1,2) have "fst a < length rows" "snd a = rows ! fst a"
      "fst b < length rows" "snd b = rows ! fst b" by (simp_all only: mem)
    with ab(3,4,5) show "i \<in> {i. i < length rows \<and> (\<exists>j<length rows. j \<noteq> i \<and> overlap (rows ! i) (rows ! j))}"
      by auto
  next
    fix i assume "i \<in> {i. i < length rows \<and> (\<exists>j<length rows. j \<noteq> i \<and> overlap (rows ! i) (rows ! j))}"
    then obtain j where j: "i < length rows" "j < length rows" "j \<noteq> i"
      "overlap (rows ! i) (rows ! j)" by blast
    have "(i, rows ! i) \<in> set ?xs" "(j, rows ! j) \<in> set ?xs"
      using j(1,2) by (simp_all only: mem fst_conv snd_conv)
    then show "i \<in> {i. \<exists>a\<in>set ?xs. \<exists>b\<in>set ?xs. fst a = i \<and> fst b \<noteq> i \<and> overlap (snd a) (snd b)}"
      using j(3,4) by force
  qed
  finally show ?thesis .
qed

text \<open>
  Claim C3. \<open>build_conflict_set\<close> does not return, for every list of rows, the rows
  that have a day in common with another row. A row that ends before it starts has no
  day at all, and yet passes the test of the code with a row that spans both its dates:
  both rows are returned.
\<close>

theorem conflict_set_day_sharing_counterexample:
  "day_span march_1_feb_28 = {} \<and>
   \<not> shares_day march_1_feb_28 feb_20_march_10 \<and>
   \<not> shares_day feb_20_march_10 march_1_feb_28 \<and>
   build_conflict_set [march_1_feb_28, feb_20_march_10] = {0, 1} \<and>
   build_conflict_set [march_1_feb_28, feb_20_march_10] \<noteq>
     {i. i < length [march_1_feb_28, feb_20_march_10] \<and>
         (\<exists>j<length [march_1_feb_28, feb_20_march_10]. j \<noteq> i \<and>
            shares_day ([march_1_feb_28, feb_20_march_10] ! i)
              ([march_1_feb_28, feb_20_march_10] ! j))}"
proof -
  let ?R = "[march_1_feb_28, feb_20_march_10]"
  have e: "day_span march_1_feb_28 = {}" by code_simp
  have n: "\<not> shares_day march_1_feb_28 feb_20_march_10"
    "\<not> shares_day feb_20_march_10 march_1_feb_28" by code_simp+
  have b: "build_conflict_set ?R = {0, 1}" by code_simp
  have "0 \<notin> {i. i < length ?R \<and> (\<exists>j<length ?R. j \<noteq> i \<and> shares_day (?R ! i) (?R ! j))}"
  proof
    assume "0 \<in> {i. i < length ?R \<and> (\<exists>j<length ?R. j \<noteq> i \<and> shares_day (?R ! i) (?R ! j))}"
    then obtain j where j: "j < length ?R" "j \<noteq> 0" "shares_day (?R ! 0) (?R ! j)" by blast
    from j(1,2) have "j = 1" by simp
    with j(3) n(1) show False by simp
  qed
  moreover have "0 \<in> build_conflict_set ?R" unfolding b by simp
  ultimately have d: "build_conflict_set ?R \<noteq>
     {i. i < length ?R \<and> (\<exists>j<length ?R. j \<noteq> i \<and> shares_day (?R ! i) (?R ! j))}"
    by metis
  from e n b d show ?thesis by (intro conjI)
qed

text \<open>
  Claim C3, as amended. \<open>build_conflict_set\<close> returns exactly the indices of the
  rows that pass the inclusive test of the code
  (\<open>a.start <= b.end and b.start <= a.end\<close>) with a row at another index: the break
  of the inner loop loses no pair. For rows that end no earlier than they start, these
  are exactly the rows whose days \<open>start .. end\<close> have a day in common with the days
  of another row.
\<close>

theorem conflict_set_exact:
  "build_conflict_set rows =
     {i. i < length rows \<and> (\<exists>j<length rows. j \<noteq> i \<and> overlap (rows ! i) (rows ! j))} \<and>
   ((\<forall>r\<in>set rows. row_start r \<le> row_end r) \<longrightarrow>
    build_conflict_set rows =
     {i. i < length rows \<and> (\<exists>j<length rows. j \<noteq> i \<and> shares_day (rows ! i) (rows ! j))})"
proof (intro conjI impI)
  show "build_conflict_set rows =
     {i. i < length rows \<and> (\<exists>j<length rows. j \<noteq> i \<and> overlap (rows ! i) (rows ! j))}"
    by (rule build_conflict_set_overlap)
next
  assume wf: "\<forall>r\<in>set rows. row_start r \<le> row_end r"
  have "overlap (rows ! i) (rows ! j) \<longleftrightarrow> shares_day (rows ! i) (rows ! j)"
    if "i < length rows" "j < length rows" for i j
    using that wf by (simp add: shares_day_iff)
  then show "build_conflict_set rows =
     {i. i < length rows \<and> (\<exists>j<length rows. j \<noteq> i \<and> shares_day (rows ! i) (rows ! j))}"
    unfolding build_conflict_set_overlap by blast
qed

theorem conflict_set_exact_witness:
  "list_all (\<lambda>r. row_start r \<le> row_end r) [april_10_12, april_12_15, april_13_15] \<and>
   row_end april_10_12 = row_start april_12_15 \<and>
   shares_day april_10_12 april_12_15 \<and>
   build_conflict_set [april_10_12, april_12_15] = {0, 1} \<and>
   \<not> shares_day april_10_12 april_13_15 \<and>
   build_conflict_set [april_10_12, april_13_15] = {}"
proof -
  let ?A = "[april_10_12, april_12_15]"
  let ?B = "[april_10_12, april_13_15]"
  have wf: "list_all (\<lambda>r. row_start r \<le> row_end r) [april_10_12, april_12_15, april_13_15]"
    by code_simp
  have b: "row_end april_10_12 = row_start april_12_15" by code_simp
  have s: "shares_day april_10_12 april_12_15" "shares_day april_12_15 april_10_12" by code_simp+
  have n: "\<not> shares_day april_10_12 april_13_15" "\<not> shares_day april_13_15 april_10_12"
    by code_simp+
  from wf have wA: "\<forall>r\<in>set ?A. row_start r \<le> row_end r"
    and wB: "\<forall>r\<in>set ?B. row_start r \<le> row_end r" by simp_all
  have "build_conflict_set ?A =
     {i. i < length ?A \<and> (\<exists>j<length ?A. j \<noteq> i \<and> shares_day (?A ! i) (?A ! j))}"
    using wA by (rule conflict_set_exact[THEN conjunct2, THEN mp])
  also have "\<dots> = {0, 1}"
  proof (intro set_eqI iffI)
    fix i assume "i \<in> {i. i < length ?A \<and> (\<exists>j<length ?A. j \<noteq> i \<and> shares_day (?A ! i) (?A ! j))}"
    then have "i < 2" by simp
    then show "i \<in> {0, 1}" by auto
  next
    fix i :: nat assume "i \<in> {0, 1}"
    then consider "i = 0" | "i = 1" by auto
    then show "i \<in> {i. i < length ?A \<and> (\<exists>j<length ?A. j \<noteq> i \<and> shares_day (?A ! i) (?A ! j))}"
    proof cases
      case 1
      with s(1) show ?thesis by (intro CollectI conjI exI[of _ 1]) simp_all
    next
      case 2
      with s(2) show ?thesis by (intro CollectI conjI exI[of _ 0]) simp_all
    qed
  qed
  finally have rA: "build_conflict_set ?A = {0, 1}" .
  have "build_conflict_set ?B =
     {i. i < length ?B \<and> (\<exists>j<length ?B. j \<noteq> i \<and> shares_day (?B ! i) (?B ! j))}"
    using wB by (rule conflict_set_exact[THEN conjunct2, THEN mp])
  also have "\<dots> = {}"
  proof -
    have "\<not> shares_day (?B ! i) (?B ! j)" if "i < 2" "j < 2" "j \<noteq> i" for i j
    proof -
      from that have "(i = 0 \<and> j = 1) \<or> (i = 1 \<and> j = 0)" by auto
      with n show ?thesis by auto
    qed
    then show ?thesis by auto
  qed
  finally have rB: "build_conflict_set ?B = {}" .
  from wf b s(1) rA n(1) rB show ?thesis by (intro conjI)
qed

section \<open>The end date of a WPA event\<close>

text \<open>
  Claim C7. Every record of \<open>fetch_wpa_ics\<close> should end no earlier than it starts.
  The code takes \<open>DTEND\<close> as the exclusive end of an all-day event and subtracts one
  day, also when \<open>DTEND\<close> is a time on the day of \<open>DTSTART\<close>: an event from
  10:00 to 18:00 on 2026-03-01 is appended with start 2026-03-01 and end 2026-02-28.
\<close>

theorem wpa_same_day_event:
  "wpa_event_dates (ymd2ord 2026 1 1) (IcsDateTime (ymd2ord 2026 3 1) 36000)
      (Some (IcsDateTime (ymd2ord 2026 3 1) 64800)) =
     Inr (Some (ymd2ord 2026 3 1, ymd2ord 2026 2 28)) \<and>
   ymd2ord 2026 2 28 < ymd2ord 2026 3 1 \<and>
   isoformat (ymd2ord 2026 3 1) = ''2026-03-01'' \<and>
   isoformat (ymd2ord 2026 2 28) = ''2026-02-28''"
proof -
  have d: "ymd2ord 2026 1 1 = 739617" "ymd2ord 2026 3 1 = 739676" "ymd2ord 2026 2 28 = 739675"
    by code_simp+
  have "wpa_event_dates 739617 (IcsDateTime 739676 36000) (Some (IcsDateTime 739676 64800)) =
     Inr (Some (739676, 739675))"
    by (simp add: wpa_event_dates_def ics_dt_to_date_def date_minus_days_def max_ordinal_def
        is_upcoming_or_ongoing_def)
  moreover have "isoformat 739676 = ''2026-03-01''" by code_simp
  moreover have "isoformat 739675 = ''2026-02-28''" by code_simp
  ultimately show ?thesis unfolding d by simp
qed

section \<open>White space and spelling\<close>

lemma collapsed_hd: "collapsed s \<Longrightarrow> s \<noteq> [] \<Longrightarrow> \<not> is_space (hd s)"
  by (induction s rule: collapsed.induct) auto

lemma collapsed_last: "collapsed s \<Longrightarrow> s \<noteq> [] \<Longrightarrow> \<not> is_space (last s)"
  by (induction s rule: collapsed.induct) (auto split: if_splits)

lemma dropWhile_id: "s = [] \<or> \<not> P (hd s) \<Longrightarrow> dropWhile P s = s"
  by (cases s) auto

lemma strip_by_id:
  assumes "s \<noteq> [] \<Longrightarrow> \<not> P (hd s) \<and> \<not> P (last s)"
  shows "strip_by P s = s"
proof (cases "s = []")
  case True then show ?thesis by (simp add: strip_by_def)
next
  case False
  with assms have h: "\<not> P (hd s)" "\<not> P (last s)" by simp_all
  from False h(1) have 1: "dropWhile P s = s" by (simp add: dropWhile_id)
  from False h(2) have "\<not> P (hd (rev s))" by (simp add: hd_rev)
  then have "dropWhile P (rev s) = rev s" by (simp add: dropWhile_id)
  with 1 show ?thesis by (simp add: strip_by_def)
qed

lemma collapsed_strip: "collapsed s \<Longrightarrow> strip s = s"
  unfolding strip_def by (rule strip_by_id) (simp add: collapsed_hd collapsed_last)

lemma collapsed_sub_runs: "collapsed s \<Longrightarrow> sub_runs is_space '' '' s = s"
proof (induction s rule: collapsed.induct)
  case 1 then show ?case by simp
next
  case (2 c) then show ?case by simp
next
  case (3 c d cs)
  show ?case
  proof (cases "is_space d")
    case True
    with "3.prems" have h: "\<not> is_space c" "d = CHR '' ''" "cs \<noteq> []" "collapsed cs" by simp_all
    from h(3,4) have "\<not> is_space (hd cs)" by (simp add: collapsed_hd)
    with h(3) have "dropWhile is_space cs = cs" by (simp add: dropWhile_id)
    with True h "3.IH"(1) show ?thesis by simp
  next
    case False
    with "3.prems" have h: "\<not> is_space c" "collapsed (d # cs)" by simp_all
    with False "3.IH"(2) show ?thesis by simp
  qed
qed

lemma collapsed_norm_spaces: "collapsed s \<Longrightarrow> norm_spaces s = s"
  by (simp add: norm_spaces_def collapsed_strip collapsed_sub_runs)

lemma is_space_blank: "is_space CHR '' ''"
  by (simp add: is_space_def)

lemma last_dropWhile: "dropWhile P xs \<noteq> [] \<Longrightarrow> last (dropWhile P xs) = last xs"
proof -
  assume a: "dropWhile P xs \<noteq> []"
  have "last xs = last (takeWhile P xs @ dropWhile P xs)" by simp
  also have "\<dots> = last (dropWhile P xs)" using a by (simp only: last_append if_False)
  finally show ?thesis by simp
qed

lemma strip_by_ends:
  assumes "strip_by P s \<noteq> []"
  shows "\<not> P (hd (strip_by P s)) \<and> \<not> P (last (strip_by P s))"
proof -
  let ?u = "dropWhile P s"
  let ?v = "dropWhile P (rev ?u)"
  from assms have v: "?v \<noteq> []" by (simp add: strip_by_def)
  have u: "?u \<noteq> []"
  proof
    assume "?u = []"
    then have "?v = []" by (simp only: rev.simps(1) dropWhile.simps(1))
    with v show False by (rule notE)
  qed
  have "last (strip_by P s) = hd ?v" using v by (simp add: strip_by_def last_rev)
  moreover have "\<not> P (hd ?v)" using v by (rule hd_dropWhile)
  moreover have "hd (strip_by P s) = last ?v" using v by (simp add: strip_by_def hd_rev)
  moreover have "last ?v = last (rev ?u)" using v by (rule last_dropWhile)
  moreover have "last (rev ?u) = hd ?u" using u by (simp add: last_rev)
  moreover have "\<not> P (hd ?u)" using u by (rule hd_dropWhile)
  ultimately show ?thesis by simp
qed

lemma sub_runs_collapsed:
  "(t \<noteq> [] \<longrightarrow> \<not> is_space (last t)) \<Longrightarrow>
     (case t of [] \<Rightarrow> True
      | c # cs \<Rightarrow>
          if is_space c
          then (\<exists>r. sub_runs is_space '' '' t = CHR '' '' # r \<and> r \<noteq> [] \<and> collapsed r)
          else collapsed (sub_runs is_space '' '' t))"
proof (induction "length t" arbitrary: t rule: less_induct)
  case less
  show ?case
  proof (cases t)
    case Nil then show ?thesis by simp
  next
    case (Cons c cs)
    with less.prems have lt: "\<not> is_space (last (c # cs))" by simp
    show ?thesis
    proof (cases "is_space c")
      case True
      let ?u = "dropWhile is_space cs"
      from True lt have cs: "cs \<noteq> []" by auto
      with lt have lcs: "\<not> is_space (last cs)" by simp
      from cs have "last cs \<in> set cs" by simp
      with lcs have u: "?u \<noteq> []" by (auto simp: dropWhile_eq_Nil_conv)
      then have hu: "\<not> is_space (hd ?u)" by (rule hd_dropWhile)
      from u have lu: "\<not> is_space (last ?u)" using lcs by (simp add: last_dropWhile)
      have "length ?u < length t" using Cons
        by (simp add: le_imp_less_Suc length_dropWhile_le)
      from less.hyps[OF this] lu u hu
      have c: "collapsed (sub_runs is_space '' '' ?u)" by (cases ?u) auto
      from u hu have "sub_runs is_space '' '' ?u \<noteq> []" by (cases ?u) auto
      with c True Cons show ?thesis by simp
    next
      case False
      show ?thesis
      proof (cases cs)
        case Nil
        with False Cons show ?thesis by simp
      next
        case (Cons d ds)
        with lt have l2: "\<not> is_space (last cs)" by simp
        have "length cs < length t" using \<open>t = c # cs\<close> by simp
        from less.hyps[OF this] l2 Cons
        have ih: "if is_space d
          then (\<exists>r. sub_runs is_space '' '' cs = CHR '' '' # r \<and> r \<noteq> [] \<and> collapsed r)
          else collapsed (sub_runs is_space '' '' cs)" by simp
        show ?thesis
        proof (cases "is_space d")
          case True
          with ih obtain r where "sub_runs is_space '' '' cs = CHR '' '' # r" "r \<noteq> []" "collapsed r"
            by auto
          with False \<open>t = c # cs\<close> show ?thesis by (simp add: is_space_blank)
        next
          case nd: False
          with ih have "collapsed (sub_runs is_space '' '' cs)" by simp
          moreover have "sub_runs is_space '' '' cs = d # sub_runs is_space '' '' ds"
            using nd Cons by simp
          ultimately show ?thesis using False nd \<open>t = c # cs\<close> by simp
        qed
      qed
    qed
  qed
qed

lemma collapsed_norm_spaces_result: "collapsed (norm_spaces x)"
proof (cases "strip x")
  case Nil
  then show ?thesis by (simp add: norm_spaces_def)
next
  case (Cons c cs)
  then have ne: "strip_by is_space x \<noteq> []" by (simp add: strip_def)
  from strip_by_ends[OF ne] Cons have "\<not> is_space c" "\<not> is_space (last (c # cs))"
    by (simp_all add: strip_def)
  with sub_runs_collapsed[of "c # cs"] have "collapsed (sub_runs is_space '' '' (c # cs))"
    by simp
  with Cons show ?thesis by (simp add: norm_spaces_def)
qed

lemma norm_spaces_idem: "norm_spaces (norm_spaces x) = norm_spaces x"
  by (rule collapsed_norm_spaces[OF collapsed_norm_spaces_result])

lemma collapsed_blank_iff:
  "collapsed (a @ CHR '' '' # b) \<longleftrightarrow> a \<noteq> [] \<and> collapsed a \<and> b \<noteq> [] \<and> collapsed b"
proof (induction a rule: collapsed.induct)
  case 1
  show ?case by (cases b) (simp_all add: is_space_blank)
next
  case (2 c)
  show ?case by (simp add: is_space_blank)
next
  case (3 c d cs)
  then show ?case by (cases "is_space d") auto
qed

lemma collapsed_snoc:
  "collapsed a \<Longrightarrow> a \<noteq> [] \<Longrightarrow> \<not> is_space c \<Longrightarrow> collapsed (a @ [c])"
proof (induction a rule: collapsed.induct)
  case 1 then show ?case by simp
next
  case (2 x) then show ?case by simp
next
  case (3 x d cs)
  then show ?case by (cases "is_space d") auto
qed

lemma str_replace_Nil [simp]: "str_replace old new [] = []"
  by (simp add: str_replace.simps)

lemma str_replace_hit:
  "old \<noteq> [] \<Longrightarrow> str_replace old new (old @ s) = new @ str_replace old new s"
  by (subst str_replace.simps) simp

lemma str_replace_miss:
  "\<not> prefix old (c # cs) \<Longrightarrow> str_replace old new (c # cs) = c # str_replace old new cs"
  by (subst str_replace.simps) (auto simp: str_replace.simps)

lemma str_replace_prefix_cases:
  assumes "old \<noteq> []"
  obtains (hit) s' where "s = old @ s'" "str_replace old new s = new @ str_replace old new s'"
        | (miss) c cs where "s = c # cs" "\<not> prefix old s" "str_replace old new s = c # str_replace old new cs"
        | (nil) "s = []"
proof (cases "prefix old s")
  case True
  then obtain s' where "s = old @ s'" by (auto simp: prefix_def)
  with assms hit str_replace_hit show ?thesis by blast
next
  case False
  show ?thesis
  proof (cases s)
    case Nil then show ?thesis by (rule nil)
  next
    case (Cons c cs)
    with False miss str_replace_miss show ?thesis by blast
  qed
qed

lemma str_replace_split:
  assumes "old \<noteq> []" "c \<notin> set old"
  shows "str_replace old new (a @ c # b) = str_replace old new a @ c # str_replace old new b"
proof (induction "length a" arbitrary: a rule: less_induct)
  case less
  show ?case
  proof (cases "prefix old a")
    case True
    then obtain a' where a: "a = old @ a'" by (auto simp: prefix_def)
    with assms(1) have "length a' < length a" by simp
    from less.hyps[OF this] a assms(1) show ?thesis
      using str_replace_hit[OF assms(1), of new "a' @ c # b"] str_replace_hit[OF assms(1), of new a']
      by simp
  next
    case False
    have np: "\<not> prefix old (a @ c # b)"
    proof
      assume "prefix old (a @ c # b)"
      with False obtain us where us: "old = a @ us" "prefix us (c # b)"
        by (auto simp: prefix_append)
      with False have "us \<noteq> []" by auto
      with us(2) have "c \<in> set us" by (cases us) auto
      with us(1) assms(2) show False by simp
    qed
    show ?thesis
    proof (cases a)
      case Nil
      with np show ?thesis by (simp add: str_replace_miss)
    next
      case (Cons x a')
      with np have "str_replace old new (a @ c # b) = x # str_replace old new (a' @ c # b)"
        by (simp add: str_replace_miss)
      moreover from Cons False have "str_replace old new a = x # str_replace old new a'"
        by (simp add: str_replace_miss)
      moreover have "length a' < length a" using Cons by simp
      ultimately show ?thesis using less.hyps by simp
    qed
  qed
qed

lemma set_str_replace: "set (str_replace old new s) \<subseteq> set s \<union> set new"
proof (induction "length s" arbitrary: s rule: less_induct)
  case less
  show ?case
  proof (cases "old = []")
    case True then show ?thesis by (simp add: str_replace.simps)
  next
    case False
    then show ?thesis
    proof (cases rule: str_replace_prefix_cases[where s = s and new = new])
      case (hit s')
      with False have "length s' < length s" by simp
      from less.hyps[OF this] hit show ?thesis by auto
    next
      case (miss c cs)
      then have "length cs < length s" by simp
      from less.hyps[OF this] miss show ?thesis by auto
    next
      case nil then show ?thesis by simp
    qed
  qed
qed

lemma str_replace_eq_Nil:
  assumes "old \<noteq> []" "new \<noteq> []"
  shows "str_replace old new s = [] \<longleftrightarrow> s = []"
  using assms(1)
proof (cases rule: str_replace_prefix_cases[where s = s and new = new])
  case (hit s') with assms show ?thesis by simp
next
  case (miss c cs) then show ?thesis by simp
next
  case nil then show ?thesis by simp
qed

lemma collapsed_blank_only: "collapsed s \<Longrightarrow> c \<in> set s \<Longrightarrow> is_space c \<Longrightarrow> c = CHR '' ''"
  by (induction s rule: collapsed.induct) (auto split: if_splits)

lemma spacefree_collapsed: "\<forall>c\<in>set s. \<not> is_space c \<Longrightarrow> collapsed s"
  by (induction s rule: collapsed.induct) auto

lemma fix_spelling_collapsed: "collapsed s \<Longrightarrow> collapsed (fix_spelling s)"
proof (induction "length s" arbitrary: s rule: less_induct)
  case less
  show ?case
  proof (cases "\<forall>c\<in>set s. \<not> is_space c")
    case True
    have "set (fix_spelling s) \<subseteq> set s \<union> set ''Turkey''"
      unfolding fix_spelling_def by (rule set_str_replace)
    moreover have "\<forall>c\<in>set ''Turkey''. \<not> is_space c" by (simp add: is_space_def)
    ultimately have "\<forall>c\<in>set (fix_spelling s). \<not> is_space c" using True by blast
    then show ?thesis by (rule spacefree_collapsed)
  next
    case False
    then obtain a x b where s: "s = a @ x # b" and x: "is_space x"
      by (auto dest: split_list)
    from less.prems s x have "x = CHR '' ''" by (auto intro: collapsed_blank_only)
    with s have s': "s = a @ CHR '' '' # b" by simp
    with less.prems have k: "a \<noteq> []" "collapsed a" "b \<noteq> []" "collapsed b"
      by (simp_all add: collapsed_blank_iff)
    have "length a < length s" "length b < length s" using s' by simp_all
    with less.hyps k have "collapsed (fix_spelling a)" "collapsed (fix_spelling b)" by blast+
    moreover have "fix_spelling a \<noteq> []" "fix_spelling b \<noteq> []"
      using k unfolding fix_spelling_def by (simp_all add: str_replace_eq_Nil)
    moreover have "fix_spelling s = fix_spelling a @ CHR '' '' # fix_spelling b"
      unfolding s' fix_spelling_def by (rule str_replace_split) simp_all
    ultimately show ?thesis by (simp add: collapsed_blank_iff)
  qed
qed

lemma fix_spelling_head:
  assumes "fix_spelling s = x # t" "x \<noteq> CHR ''T''"
  shows "\<exists>s'. s = x # s' \<and> t = fix_spelling s'"
proof -
  have ne: "''Tukey'' \<noteq> []" by simp
  from ne show ?thesis
  proof (cases rule: str_replace_prefix_cases[where s = s and new = "''Turkey''"])
    case (hit s')
    with assms show ?thesis by (simp add: fix_spelling_def)
  next
    case (miss c cs)
    with assms show ?thesis by (simp add: fix_spelling_def)
  next
    case nil
    with assms show ?thesis by (simp add: fix_spelling_def)
  qed
qed

lemma fix_spelling_ukey:
  assumes "prefix ''ukey'' (fix_spelling s)"
  shows "prefix ''ukey'' s"
proof -
  from assms obtain t where t: "fix_spelling s = CHR ''u'' # CHR ''k'' # CHR ''e'' # CHR ''y'' # t"
    by (auto simp: prefix_def)
  from fix_spelling_head[OF t] obtain s1 where
    s1: "s = CHR ''u'' # s1" "CHR ''k'' # CHR ''e'' # CHR ''y'' # t = fix_spelling s1" by auto
  from fix_spelling_head[OF s1(2)[symmetric]] obtain s2 where
    s2: "s1 = CHR ''k'' # s2" "CHR ''e'' # CHR ''y'' # t = fix_spelling s2" by auto
  from fix_spelling_head[OF s2(2)[symmetric]] obtain s3 where
    s3: "s2 = CHR ''e'' # s3" "CHR ''y'' # t = fix_spelling s3" by auto
  from fix_spelling_head[OF s3(2)[symmetric]] obtain s4 where
    s4: "s3 = CHR ''y'' # s4" by auto
  from s1(1) s2(1) s3(1) s4 show ?thesis by simp
qed

lemma fix_spelling_clean: "\<not> str_contains ''Tukey'' (fix_spelling s)"
proof (induction "length s" arbitrary: s rule: less_induct)
  case less
  have ne: "''Tukey'' \<noteq> []" by simp
  from ne show ?case
  proof (cases rule: str_replace_prefix_cases[where s = s and new = "''Turkey''"])
    case (hit s')
    then have "length s' < length s" by simp
    from less.hyps[OF this] have "\<not> str_contains ''Tukey'' (fix_spelling s')" .
    moreover have "fix_spelling s = ''Turkey'' @ fix_spelling s'"
      using hit(2) by (simp add: fix_spelling_def)
    ultimately show ?thesis by simp
  next
    case (miss c cs)
    then have "length cs < length s" by simp
    from less.hyps[OF this] have ih: "\<not> str_contains ''Tukey'' (fix_spelling cs)" .
    have eq: "fix_spelling s = c # fix_spelling cs" using miss(3) by (simp add: fix_spelling_def)
    have "\<not> prefix ''Tukey'' (c # fix_spelling cs)"
    proof
      assume "prefix ''Tukey'' (c # fix_spelling cs)"
      then have "c = CHR ''T''" "prefix ''ukey'' (fix_spelling cs)" by simp_all
      then have "prefix ''Tukey'' (c # cs)" using fix_spelling_ukey by simp
      with miss show False by simp
    qed
    with ih eq show ?thesis by simp
  next
    case nil
    then show ?thesis by (simp add: fix_spelling_def)
  qed
qed

lemma fix_spelling_id: "\<not> str_contains ''Tukey'' s \<Longrightarrow> fix_spelling s = s"
proof (induction s)
  case Nil then show ?case by (simp add: fix_spelling_def)
next
  case (Cons c cs)
  then have "\<not> prefix ''Tukey'' (c # cs)" "\<not> str_contains ''Tukey'' cs" by simp_all
  with Cons.IH show ?case by (simp add: fix_spelling_def str_replace_miss)
qed

lemma fix_spelling_idem: "fix_spelling (fix_spelling s) = fix_spelling s"
  by (rule fix_spelling_id[OF fix_spelling_clean])

section \<open>Location normalisation\<close>

text \<open>
  Claim C4. An input with a denylisted term should normalise to null. On the input
  \<open>"TBA / Subscribe to Calendar"\<close> the denylist pattern matches, and the right-hand side
  alone is rejected, but \<open>normalize_location\<close> returns the right-hand side: the branch
  for a \<open>TBA\<close> side returns before \<open>is_bad_location\<close> is asked.
\<close>

theorem tba_side_skips_denylist:
  "bad_location_search None (norm_spaces ''TBA / Subscribe to Calendar'') \<and>
   normalize_location (Some ''Subscribe to Calendar'') = None \<and>
   normalize_location (Some ''TBA / Subscribe to Calendar'') = Some ''Subscribe to Calendar''"
  by code_simp

lemma split_once_append:
  "sep \<noteq> [] \<Longrightarrow> str_contains sep s \<Longrightarrow>
     s = fst (split_once sep s) @ sep @ snd (split_once sep s)"
proof (induction s)
  case Nil then show ?case by simp
next
  case (Cons c cs)
  show ?case
  proof (cases "prefix sep (c # cs)")
    case True
    then obtain t where t: "c # cs = sep @ t" by (auto simp: prefix_def)
    have "split_once sep (c # cs) = ([], drop (length sep) (c # cs))" using True by simp
    also have "drop (length sep) (c # cs) = t" unfolding t by simp
    finally show ?thesis using t by simp
  next
    case False
    with Cons.prems have "str_contains sep cs" by simp
    from Cons.IH[OF Cons.prems(1) this] False show ?thesis
      by (simp add: split_beta)
  qed
qed

lemma is_bad_location_empty: "is_bad_location (Some [])"
  by (simp add: is_bad_location_def truthy_def)

lemma slash_parts:
  assumes "collapsed s" "str_contains '' / '' s" "split_once '' / '' s = (l, r)"
  shows "s = l @ '' / '' @ r" "l \<noteq> []" "collapsed l" "r \<noteq> []" "collapsed r"
        "strip l = l" "strip r = r"
proof -
  have "s = fst (split_once '' / '' s) @ '' / '' @ snd (split_once '' / '' s)"
    by (rule split_once_append[OF _ assms(2)]) simp
  with assms(3) show s: "s = l @ '' / '' @ r" by simp
  then have "collapsed (l @ CHR '' '' # ([CHR ''/''] @ CHR '' '' # r))" using assms(1) by simp
  then have 1: "l \<noteq> []" "collapsed l" and 2: "collapsed ([CHR ''/''] @ CHR '' '' # r)"
    unfolding collapsed_blank_iff by simp_all
  from 2 have 3: "r \<noteq> []" "collapsed r" unfolding collapsed_blank_iff by simp_all
  from 1 3 show "l \<noteq> []" "collapsed l" "r \<noteq> []" "collapsed r" by simp_all
  from 1 3 show "strip l = l" "strip r = r" by (simp_all add: collapsed_strip)
qed

lemma collapsed_comma_join:
  assumes "collapsed l" "l \<noteq> []" "collapsed r" "r \<noteq> []"
  shows "collapsed (l @ '', '' @ r)"
proof -
  have "\<not> is_space CHR '',''" by (simp add: is_space_def)
  with assms(1,2) have "collapsed (l @ [CHR '',''])" by (simp add: collapsed_snoc)
  with assms(3,4) have "collapsed ((l @ [CHR '','']) @ CHR '' '' # r)"
    unfolding collapsed_blank_iff by simp
  then show ?thesis by simp
qed

lemma prefix_past_foreign:
  assumes "c \<notin> set p" "prefix p (a @ c # b)"
  shows "prefix p a"
proof -
  from assms(2) consider "prefix p a" | us where "p = a @ us" "prefix us (c # b)"
    by (auto simp: prefix_append)
  then show ?thesis
  proof cases
    case 1 then show ?thesis .
  next
    case 2
    show ?thesis
    proof (cases us)
      case Nil with 2 show ?thesis by simp
    next
      case (Cons u us')
      with 2(2) have "u = c" by simp
      with Cons 2(1) assms(1) show ?thesis by simp
    qed
  qed
qed

lemma str_contains_split:
  assumes "c \<notin> set p" "p \<noteq> []"
  shows "str_contains p (a @ c # b) \<longleftrightarrow> str_contains p a \<or> str_contains p b"
proof (induction a)
  case Nil
  have "\<not> prefix p (c # b)"
  proof
    assume "prefix p (c # b)"
    then have "prefix p ([] @ c # b)" by simp
    with assms(1) have "prefix p []" by (rule prefix_past_foreign)
    with assms(2) show False by simp
  qed
  with assms(2) show ?case by simp
next
  case (Cons x a)
  have "prefix p (x # a @ c # b) \<longleftrightarrow> prefix p (x # a)"
  proof
    assume "prefix p (x # a @ c # b)"
    then have "prefix p ((x # a) @ c # b)" by simp
    with assms(1) show "prefix p (x # a)" by (rule prefix_past_foreign)
  next
    assume "prefix p (x # a)"
    then have "prefix p ((x # a) @ c # b)" by (rule prefix_prefix)
    then show "prefix p (x # a @ c # b)" by simp
  qed
  with Cons show ?case by auto
qed

lemma slash_parts_spelling:
  assumes "\<not> str_contains ''Tukey'' (l @ '' / '' @ r)"
  shows "\<not> str_contains ''Tukey'' l" "\<not> str_contains ''Tukey'' r"
        "\<not> str_contains ''Tukey'' (l @ '', '' @ r)"
proof -
  have "str_contains ''Tukey'' (l @ CHR '' '' # (''/ '' @ r)) \<longleftrightarrow>
        str_contains ''Tukey'' l \<or> str_contains ''Tukey'' (''/ '' @ r)"
    by (rule str_contains_split) simp_all
  moreover have "str_contains ''Tukey'' (''/ '' @ r) \<longleftrightarrow> str_contains ''Tukey'' r" by simp
  ultimately show 1: "\<not> str_contains ''Tukey'' l" and 2: "\<not> str_contains ''Tukey'' r"
    using assms by simp_all
  have "str_contains ''Tukey'' (l @ CHR '','' # ('' '' @ r)) \<longleftrightarrow>
        str_contains ''Tukey'' l \<or> str_contains ''Tukey'' ('' '' @ r)"
    by (rule str_contains_split) simp_all
  moreover have "str_contains ''Tukey'' ('' '' @ r) \<longleftrightarrow> str_contains ''Tukey'' r" by simp
  ultimately show "\<not> str_contains ''Tukey'' (l @ '', '' @ r)" using 1 2 by simp
qed

lemma normalize_location_result:
  assumes "normalize_location loc = Some r"
  shows "collapsed r \<and> r \<noteq> [] \<and> \<not> str_contains ''Tukey'' r \<and> upper r \<noteq> ''TBA''"
proof -
  from assms obtain x where x: "loc = Some x" "x \<noteq> []"
    by (cases loc) (auto simp: normalize_location_def truthy_def split: if_splits)
  let ?s = "fix_spelling (norm_spaces x)"
  have cs: "collapsed ?s" by (rule fix_spelling_collapsed[OF collapsed_norm_spaces_result])
  have ts: "\<not> str_contains ''Tukey'' ?s" by (rule fix_spelling_clean)
  show ?thesis
  proof (cases "str_contains '' / '' ?s")
    case True
    obtain l r0 where sp: "split_once '' / '' ?s = (l, r0)" by (cases "split_once '' / '' ?s")
    note p = slash_parts[OF cs True sp]
    from ts p(1) have "\<not> str_contains ''Tukey'' (l @ '' / '' @ r0)" by simp
    note q = slash_parts_spelling[OF this]
    from assms x True sp p(6,7)
    have "(r = r0 \<or> r = l \<or> r = l @ '', '' @ r0) \<and> upper r \<noteq> ''TBA''"
      by (auto simp: normalize_location_def truthy_def fix_spelling_def Let_def split: if_splits)
    with p q collapsed_comma_join[OF p(3) p(2) p(5) p(4)] show ?thesis by auto
  next
    case False
    with assms x have "r = ?s" "\<not> is_bad_location (Some ?s)" "upper r \<noteq> ''TBA''"
      by (auto simp: normalize_location_def truthy_def fix_spelling_def Let_def split: if_splits)
    with cs ts is_bad_location_empty show ?thesis by auto
  qed
qed

lemma normalize_location_fixed:
  assumes "normalize_location loc = Some r" "\<not> str_contains '' / '' r"
    "\<not> is_bad_location (Some r)"
  shows "normalize_location (Some r) = Some r"
proof -
  from normalize_location_result[OF assms(1)]
  have r: "collapsed r" "r \<noteq> []" "\<not> str_contains ''Tukey'' r" "upper r \<noteq> ''TBA''" by simp_all
  from r(1) have n: "norm_spaces r = r" by (rule collapsed_norm_spaces)
  from r(3) have f: "str_replace ''Tukey'' ''Turkey'' r = r"
    unfolding fix_spelling_def[symmetric] by (rule fix_spelling_id)
  show ?thesis
    unfolding normalize_location_def using r(2,4) assms(2,3)
    by (simp add: truthy_def n f)
qed

lemma normalize_location_None: "normalize_location None = None"
  by (simp add: normalize_location_def truthy_def)

text \<open>
  Claim C10. \<open>normalize_location\<close> never returns the empty string: every result that
  is not null is a non-empty string that \<open>norm_spaces\<close> leaves unchanged, on the main
  path and on the paths that return one side of a separator.
\<close>

theorem normalize_location_nonempty:
  "normalize_location loc = Some r \<Longrightarrow> r \<noteq> [] \<and> norm_spaces r = r"
  using normalize_location_result[of loc r] by (simp add: collapsed_norm_spaces)

theorem normalize_location_nonempty_witness:
  "normalize_location (Some ''TBA /   Las  Vegas '') = Some ''Las Vegas'' \<and>
   ''Las Vegas'' \<noteq> [] \<and> norm_spaces ''Las Vegas'' = ''Las Vegas''"
proof -
  have e: "normalize_location (Some ''TBA /   Las  Vegas '') = Some ''Las Vegas''"
    by code_simp
  from normalize_location_nonempty[OF e]
  have "''Las Vegas'' \<noteq> [] \<and> norm_spaces ''Las Vegas'' = ''Las Vegas''" .
  with e show ?thesis by (rule conjI)
qed

text \<open>
  Claim C5. \<open>normalize_location\<close> is not idempotent on every string. The input is
  split at its first separator \<open>" / "\<close> only, so a second separator survives the first
  pass and is rewritten by the second.
\<close>

theorem normalize_location_twice_counterexample:
  "normalize_location (Some ''Antalya / Kemer / Turkey'') = Some ''Antalya, Kemer / Turkey'' \<and>
   normalize_location (Some ''Antalya, Kemer / Turkey'') = Some ''Antalya, Kemer, Turkey'' \<and>
   normalize_location (normalize_location (Some ''Antalya / Kemer / Turkey'')) \<noteq>
     normalize_location (Some ''Antalya / Kemer / Turkey'')"
  by code_simp

text \<open>
  Claim C5, as amended. \<open>normalize_location\<close> is idempotent on every input whose
  result is null or is a string that holds no separator \<open>" / "\<close> and is accepted by
  \<open>is_bad_location\<close>; in particular on every string whose collapsed and corrected
  form holds no separator, and on null.
\<close>

theorem normalize_location_idempotent_without_slash:
  "(normalize_location loc = None \<or>
    (\<exists>r. normalize_location loc = Some r \<and> \<not> str_contains '' / '' r \<and>
         \<not> is_bad_location (Some r))
    \<longrightarrow> normalize_location (normalize_location loc) = normalize_location loc) \<and>
   (\<not> str_contains '' / '' (str_replace ''Tukey'' ''Turkey'' (norm_spaces x)) \<longrightarrow>
      normalize_location (normalize_location (Some x)) = normalize_location (Some x)) \<and>
   normalize_location (normalize_location None) = normalize_location None"
proof (intro conjI impI)
  assume "normalize_location loc = None \<or>
    (\<exists>r. normalize_location loc = Some r \<and> \<not> str_contains '' / '' r \<and>
         \<not> is_bad_location (Some r))"
  then show "normalize_location (normalize_location loc) = normalize_location loc"
  proof
    assume "normalize_location loc = None"
    then show ?thesis by (simp add: normalize_location_None)
  next
    assume "\<exists>r. normalize_location loc = Some r \<and> \<not> str_contains '' / '' r \<and>
         \<not> is_bad_location (Some r)"
    then obtain r where h: "normalize_location loc = Some r" "\<not> str_contains '' / '' r"
      "\<not> is_bad_location (Some r)" by blast
    then have "normalize_location (Some r) = Some r" by (rule normalize_location_fixed)
    with h(1) show ?thesis by simp
  qed
next
  assume ns: "\<not> str_contains '' / '' (str_replace ''Tukey'' ''Turkey'' (norm_spaces x))"
  show "normalize_location (normalize_location (Some x)) = normalize_location (Some x)"
  proof (cases "normalize_location (Some x)")
    case None
    then show ?thesis by (simp add: normalize_location_None)
  next
    case (Some r)
    with ns have "r = str_replace ''Tukey'' ''Turkey'' (norm_spaces x)" "\<not> is_bad_location (Some r)"
      by (auto simp: normalize_location_def Let_def split: if_splits)
    with ns have "\<not> str_contains '' / '' r" "\<not> is_bad_location (Some r)" by simp_all
    with Some have "normalize_location (Some r) = Some r" by (rule normalize_location_fixed)
    with Some show ?thesis by simp
  qed
next
  show "normalize_location (normalize_location None) = normalize_location None"
    by (simp add: normalize_location_None)
qed

theorem normalize_location_idempotent_without_slash_witness:
  "\<not> str_contains '' / '' (str_replace ''Tukey'' ''Turkey'' (norm_spaces ''  Izmir,   Tukey '')) \<and>
   normalize_location (Some ''  Izmir,   Tukey '') = Some ''Izmir, Turkey'' \<and>
   normalize_location (normalize_location (Some ''  Izmir,   Tukey '')) =
     normalize_location (Some ''  Izmir,   Tukey '') \<and>
   normalize_location (Some ''Paris / France'') = Some ''Paris, France'' \<and>
   \<not> str_contains '' / '' ''Paris, France'' \<and> \<not> is_bad_location (Some ''Paris, France'') \<and>
   normalize_location (normalize_location (Some ''Paris / France'')) =
     normalize_location (Some ''Paris / France'') \<and>
   normalize_location (Some ''00'') = None \<and>
   normalize_location (normalize_location (Some ''00'')) = normalize_location (Some ''00'')"
proof -
  have a: "\<not> str_contains '' / '' (str_replace ''Tukey'' ''Turkey'' (norm_spaces ''  Izmir,   Tukey ''))"
    by code_simp
  have b: "normalize_location (Some ''  Izmir,   Tukey '') = Some ''Izmir, Turkey''" by code_simp
  have c: "normalize_location (Some ''Paris / France'') = Some ''Paris, France''" by code_simp
  have d: "\<not> str_contains '' / '' ''Paris, France''" by code_simp
  have e: "\<not> is_bad_location (Some ''Paris, France'')" by code_simp
  have n: "normalize_location (Some ''00'') = None" by code_simp
  from normalize_location_idempotent_without_slash[of "Some ''00''" "''  Izmir,   Tukey ''"] a
  have f: "normalize_location (normalize_location (Some ''  Izmir,   Tukey '')) =
     normalize_location (Some ''  Izmir,   Tukey '')" by blast
  from normalize_location_idempotent_without_slash[of "Some ''Paris / France''" "[]"] c d e
  have g: "normalize_location (normalize_location (Some ''Paris / France'')) =
     normalize_location (Some ''Paris / France'')" by blast
  from normalize_location_idempotent_without_slash[of "Some ''00''" "[]"] n
  have h: "normalize_location (normalize_location (Some ''00'')) = normalize_location (Some ''00'')"
    by blast
  from a b f c d e g n h show ?thesis by (intro conjI)
qed

end
